theory Spec2Isabelle
  imports Main "HOL-Library.Sublist"
begin

section \<open>The schema migration engine of \<open>internal/database/migration\<close>\<close>

text \<open>
  The engine (\<open>migration.go\<close>, \<open>registry.go\<close>) is embedded as pure functions over an
  explicit store. A Go \<open>error\<close> result is a value of an error datatype, the two loops of
  \<open>Migrate\<close> and \<open>Rollback\<close> are structural recursions over the slice they range
  over, and the logger's output is returned as a list of events.
\<close>

subsection \<open>Data model\<close>

text \<open>
  \<open>type MigrationRecord struct { ID string `gorm:"primaryKey"`; AppliedAt time.Time }\<close>.
  A point in time is a natural number.
\<close>

record MigrationRecord =
  ID :: string
  AppliedAt :: nat

text \<open>
  What a failing call of the store or of a unit body reports. The engine never inspects
  the cause, it only wraps it.
\<close>

datatype cause =
    StoreFault
  | NoTable
  | DuplicateKey
  | UnitError string

text \<open>
  The errors \<open>Migrate\<close> and \<open>Rollback\<close> return: one constructor for each
  \<open>fmt.Errorf\<close> of \<open>migration.go\<close>, with the migration id where the message has
  one and the wrapped cause (\<open>%w\<close>) last.
\<close>

datatype error =
    FailedCreateTable cause
  | FailedGetApplied cause
  | FailedBegin cause
  | MigrationFailed string cause
  | FailedRecord string cause
  | FailedCommitMigration string cause
  | RollbackFailed string cause
  | FailedRemoveRecord string cause
  | FailedCommitRollback string cause

text \<open>The migration id an error message carries, if it carries one.\<close>

fun annotated_id :: "error \<Rightarrow> string option" where
  "annotated_id (FailedCreateTable c) = None"
| "annotated_id (FailedGetApplied c) = None"
| "annotated_id (FailedBegin c) = None"
| "annotated_id (MigrationFailed i c) = Some i"
| "annotated_id (FailedRecord i c) = Some i"
| "annotated_id (FailedCommitMigration i c) = Some i"
| "annotated_id (RollbackFailed i c) = Some i"
| "annotated_id (FailedRemoveRecord i c) = Some i"
| "annotated_id (FailedCommitRollback i c) = Some i"

text \<open>The five log lines of \<open>migration.go\<close>, each with its \<open>migration_id\<close> field.\<close>

datatype event =
    Running string
  | Successful string
  | NotFound string
  | RollingBack string
  | RollbackSuccessful string

text \<open>
  \<open>type Migration interface { ID() string; Migrate(*gorm.DB) error; Rollback(*gorm.DB) error }\<close>.
  A unit body receives the open transaction and changes the schema through it, or fails;
  the schema is opaque to the engine (type \<open>'s\<close>). A body is taken to act on the schema
  only: it neither reads nor writes the record table, as for the units of the repository,
  which create and drop their own table.
\<close>

record 's Migration =
  mig_ID :: string
  mig_Migrate :: "'s \<Rightarrow> cause + 's"
  mig_Rollback :: "'s \<Rightarrow> cause + 's"

text \<open>
  The store behind \<open>m.db\<close>: the schema, the table \<open>migration_records\<close> (\<open>None\<close> while
  the table does not exist; the rows in insertion order) and the number of clock readings
  that committed insertions have consumed. The engine is single-threaded and the store
  has no other writer, so a store value is all there is to a state.
\<close>

record 's DB =
  schema :: 's
  migration_records :: "MigrationRecord list option"
  tick :: nat

subsection \<open>The store layer\<close>

text \<open>
  The calls on \<open>*gorm.DB\<close> that the engine makes. The ORM and the database are external
  collaborators; the repository holds no code of theirs.
\<close>

datatype op =
    OpAutoMigrate
  | OpFind
  | OpBegin
  | OpCreate string
  | OpDelete string
  | OpCommit

text \<open>
  The environment of a run: which store calls fail for reasons of the store's own (as a
  function of the call and of the store's contents: failures are structural, retrying on
  the same store does not remove them), and the clock that stamps new rows (\<open>clock k\<close> is
  the reading taken by insertion number \<open>k\<close>).
\<close>

record 's env =
  faults :: "op \<Rightarrow> 's DB \<Rightarrow> bool"
  clock :: "nat \<Rightarrow> nat"

text \<open>
  Modelled from the spec: \<open>ensureTable()\<close> of the record store (\<open>db.AutoMigrate(&MigrationRecord{})\<close>),
  which creates the record table if absent and is idempotent.
\<close>

definition AutoMigrate :: "'s env \<Rightarrow> 's DB \<Rightarrow> cause + 's DB" where
  "AutoMigrate env db =
     (if faults env OpAutoMigrate db then Inl StoreFault
      else case migration_records db of
             None \<Rightarrow> Inr (db\<lparr>migration_records := Some []\<rparr>)
           | Some rows \<Rightarrow> Inr db)"

text \<open>
  Modelled from the spec: \<open>find all\<close> on the record table (\<open>db.Find(&appliedMigrations)\<close>);
  reading a table that does not exist is an error of the store.
\<close>

definition Find :: "'s env \<Rightarrow> 's DB \<Rightarrow> cause + MigrationRecord list" where
  "Find env db =
     (if faults env OpFind db then Inl StoreFault
      else case migration_records db of
             None \<Rightarrow> Inl NoTable
           | Some rows \<Rightarrow> Inr rows)"

text \<open>
  Modelled from the spec: \<open>Order("applied_at DESC")\<close>, the rows by descending
  \<open>applied_at\<close>. Among rows of equal \<open>applied_at\<close> the store's order is not defined; this
  model puts the row inserted later first.
\<close>

definition Order_applied_at_DESC :: "MigrationRecord list \<Rightarrow> MigrationRecord list" where
  "Order_applied_at_DESC rows = rev (sort_key AppliedAt rows)"

text \<open>
  Modelled from the spec: \<open>Limit(n)\<close> of the store layer, which keeps the first \<open>n\<close> rows
  for \<open>n \<ge> 0\<close> and drops the limit clause for a negative \<open>n\<close>.
\<close>

definition Limit :: "int \<Rightarrow> MigrationRecord list \<Rightarrow> MigrationRecord list" where
  "Limit n rows = (if n < 0 then rows else take (nat n) rows)"

text \<open>
  Modelled from the spec: \<open>find top-N ordered by timestamp descending\<close>
  (\<open>db.Order("applied_at DESC").Limit(n).Find(&appliedMigrations)\<close>).
\<close>

definition Find_recent :: "'s env \<Rightarrow> int \<Rightarrow> 's DB \<Rightarrow> cause + MigrationRecord list" where
  "Find_recent env n db =
     (case Find env db of
        Inl e \<Rightarrow> Inl e
      | Inr rows \<Rightarrow> Inr (Limit n (Order_applied_at_DESC rows)))"

text \<open>
  Modelled from the spec: \<open>db.Begin()\<close>. The transaction handle is a working copy of the
  store; \<open>Commit\<close> makes the copy the store, \<open>tx.Rollback()\<close> drops it.
\<close>

definition Begin :: "'s env \<Rightarrow> 's DB \<Rightarrow> cause + 's DB" where
  "Begin env db = (if faults env OpBegin db then Inl StoreFault else Inr db)"

definition Commit :: "'s env \<Rightarrow> 's DB \<Rightarrow> cause + 's DB" where
  "Commit env tx = (if faults env OpCommit tx then Inl StoreFault else Inr tx)"

text \<open>
  Modelled from the spec: \<open>insert(id)\<close> (\<open>tx.Create(&MigrationRecord{ID: id})\<close>). The id is
  the primary key, so a second row of the same id is refused; \<open>applied_at\<close> is set at
  insertion time.
\<close>

definition Create :: "'s env \<Rightarrow> 's DB \<Rightarrow> string \<Rightarrow> cause + 's DB" where
  "Create env tx i =
     (if faults env (OpCreate i) tx then Inl StoreFault
      else case migration_records tx of
             None \<Rightarrow> Inl NoTable
           | Some rows \<Rightarrow>
               if i \<in> set (map ID rows) then Inl DuplicateKey
               else Inr (tx\<lparr>migration_records :=
                               Some (rows @ [\<lparr>ID = i, AppliedAt = clock env (tick tx)\<rparr>]),
                             tick := Suc (tick tx)\<rparr>))"

text \<open>
  Modelled from the spec: \<open>delete(id)\<close> (\<open>tx.Delete(&MigrationRecord{ID: id})\<close>), which
  removes the row of that primary key.
\<close>

definition Delete :: "'s env \<Rightarrow> 's DB \<Rightarrow> string \<Rightarrow> cause + 's DB" where
  "Delete env tx i =
     (if faults env (OpDelete i) tx then Inl StoreFault
      else case migration_records tx of
             None \<Rightarrow> Inl NoTable
           | Some rows \<Rightarrow> Inr (tx\<lparr>migration_records := Some (filter (\<lambda>r. ID r \<noteq> i) rows)\<rparr>))"

text \<open>A unit body run on the open transaction: it changes the schema or fails.\<close>

definition run_body :: "('s \<Rightarrow> cause + 's) \<Rightarrow> 's DB \<Rightarrow> cause + 's DB" where
  "run_body body tx =
     (case body (schema tx) of
        Inl e \<Rightarrow> Inl e
      | Inr s \<Rightarrow> Inr (tx\<lparr>schema := s\<rparr>))"

subsection \<open>The Migrator\<close>

text \<open>
  \<open>NewMigrator\<close> starts with \<open>migrations: []Migration{}\<close>; \<open>AddMigration\<close> is
  \<open>m.migrations = append(m.migrations, migration)\<close>.
\<close>

definition NewMigrator :: "'s Migration list" where
  "NewMigrator = []"

definition AddMigration :: "'s Migration list \<Rightarrow> 's Migration \<Rightarrow> 's Migration list" where
  "AddMigration migrations migration = migrations @ [migration]"

text \<open>
  \<open>appliedMap := make(map[string]bool)\<close> filled from the rows read: a Go map of
  booleans reads \<open>false\<close> at a missing key.
\<close>

definition appliedMap :: "MigrationRecord list \<Rightarrow> string \<Rightarrow> bool" where
  "appliedMap rows = fold (\<lambda>r m. m(ID r := True)) rows (\<lambda>i. False)"

text \<open>
  The body of the loop of \<open>Migrate\<close> for a unit that is not in \<open>appliedMap\<close>
  (lines 72 to 92): begin, run the unit, record it, commit. On an error of the unit or of
  the insert the code calls \<open>tx.Rollback()\<close>; in each error case the store stays as it
  was before \<open>Begin\<close>.
\<close>

definition migrate_tx :: "'s env \<Rightarrow> 's Migration \<Rightarrow> 's DB \<Rightarrow> error + 's DB" where
  "migrate_tx env migration db =
     (case Begin env db of
        Inl e \<Rightarrow> Inl (FailedBegin e)
      | Inr tx \<Rightarrow>
          (case run_body (mig_Migrate migration) tx of
             Inl e \<Rightarrow> Inl (MigrationFailed (mig_ID migration) e)
           | Inr tx1 \<Rightarrow>
               (case Create env tx1 (mig_ID migration) of
                  Inl e \<Rightarrow> Inl (FailedRecord (mig_ID migration) e)
                | Inr tx2 \<Rightarrow>
                    (case Commit env tx2 of
                       Inl e \<Rightarrow> Inl (FailedCommitMigration (mig_ID migration) e)
                     | Inr db' \<Rightarrow> Inr db'))))"

text \<open>
  \<open>for _, migration := range m.migrations\<close> (lines 66 to 96). The result is the error
  returned (\<open>None\<close> for \<open>nil\<close>), the lines logged and the store afterwards.
\<close>

fun run_pending ::
  "'s env \<Rightarrow> (string \<Rightarrow> bool) \<Rightarrow> 's Migration list \<Rightarrow> 's DB \<Rightarrow> error option \<times> event list \<times> 's DB"
where
  "run_pending env applied [] db = (None, [], db)"
| "run_pending env applied (migration # rest) db =
     (if \<not> applied (mig_ID migration) then
        (case migrate_tx env migration db of
           Inl e \<Rightarrow> (Some e, [Running (mig_ID migration)], db)
         | Inr db' \<Rightarrow>
             (case run_pending env applied rest db' of
                (r, l, d) \<Rightarrow>
                  (r, Running (mig_ID migration) # Successful (mig_ID migration) # l, d)))
      else run_pending env applied rest db)"

text \<open>\<open>func (m *Migrator) Migrate() error\<close>.\<close>

definition Migrate ::
  "'s env \<Rightarrow> 's Migration list \<Rightarrow> 's DB \<Rightarrow> error option \<times> event list \<times> 's DB"
where
  "Migrate env migrations db =
     (case AutoMigrate env db of
        Inl e \<Rightarrow> (Some (FailedCreateTable e), [], db)
      | Inr db1 \<Rightarrow>
          (case Find env db1 of
             Inl e \<Rightarrow> (Some (FailedGetApplied e), [], db1)
           | Inr appliedMigrations \<Rightarrow>
               run_pending env (appliedMap appliedMigrations) migrations db1))"

text \<open>
  \<open>migrationsMap := make(map[string]Migration)\<close> filled in registration order: a later
  unit of the same id replaces an earlier one.
\<close>

definition migrationsMap :: "'s Migration list \<Rightarrow> string \<Rightarrow> 's Migration option" where
  "migrationsMap migrations = fold (\<lambda>m mp. mp(mig_ID m \<mapsto> m)) migrations Map.empty"

text \<open>
  The body of the loop of \<open>Rollback\<close> for a record whose unit is known (lines 126 to
  146): begin, run the unit's rollback, remove the record, commit.
\<close>

definition rollback_tx :: "'s env \<Rightarrow> 's Migration \<Rightarrow> string \<Rightarrow> 's DB \<Rightarrow> error + 's DB" where
  "rollback_tx env migration i db =
     (case Begin env db of
        Inl e \<Rightarrow> Inl (FailedBegin e)
      | Inr tx \<Rightarrow>
          (case run_body (mig_Rollback migration) tx of
             Inl e \<Rightarrow> Inl (RollbackFailed i e)
           | Inr tx1 \<Rightarrow>
               (case Delete env tx1 i of
                  Inl e \<Rightarrow> Inl (FailedRemoveRecord i e)
                | Inr tx2 \<Rightarrow>
                    (case Commit env tx2 of
                       Inl e \<Rightarrow> Inl (FailedCommitRollback i e)
                     | Inr db' \<Rightarrow> Inr db'))))"

text \<open>\<open>for _, record := range appliedMigrations\<close> (lines 116 to 149).\<close>

fun run_rollbacks ::
  "'s env \<Rightarrow> (string \<Rightarrow> 's Migration option) \<Rightarrow> MigrationRecord list \<Rightarrow> 's DB
     \<Rightarrow> error option \<times> event list \<times> 's DB"
where
  "run_rollbacks env mp [] db = (None, [], db)"
| "run_rollbacks env mp (record # rest) db =
     (case mp (ID record) of
        None \<Rightarrow>
          (case run_rollbacks env mp rest db of
             (r, l, d) \<Rightarrow> (r, NotFound (ID record) # l, d))
      | Some migration \<Rightarrow>
          (case rollback_tx env migration (ID record) db of
             Inl e \<Rightarrow> (Some e, [RollingBack (ID record)], db)
           | Inr db' \<Rightarrow>
               (case run_rollbacks env mp rest db' of
                  (r, l, d) \<Rightarrow>
                    (r, RollingBack (ID record) # RollbackSuccessful (ID record) # l, d))))"

text \<open>
  \<open>func (m *Migrator) Rollback(n int) error\<close>. The argument ranges over all integers, Go's
  \<open>int\<close> among them; the function does no arithmetic on it.
\<close>

definition Rollback ::
  "'s env \<Rightarrow> 's Migration list \<Rightarrow> int \<Rightarrow> 's DB \<Rightarrow> error option \<times> event list \<times> 's DB"
where
  "Rollback env migrations n db =
     (case Find_recent env n db of
        Inl e \<Rightarrow> (Some (FailedGetApplied e), [], db)
      | Inr appliedMigrations \<Rightarrow>
          run_rollbacks env (migrationsMap migrations) appliedMigrations db)"


subsection \<open>The registry of the repository\<close>

text \<open>
  Modelled from the spec: the schema-builder calls the unit bodies delegate to
  (\<open>tx.AutoMigrate(&model.X{})\<close>, \<open>tx.Migrator().DropTable("x")\<close>), on a schema that is the
  list of the tables that exist: the first creates the table if it is absent, the second
  drops it if it exists.
\<close>

definition create_table :: "string \<Rightarrow> string list \<Rightarrow> cause + string list" where
  "create_table t s = Inr (if t \<in> set s then s else s @ [t])"

definition drop_table :: "string \<Rightarrow> string list \<Rightarrow> cause + string list" where
  "drop_table t s = Inr (removeAll t s)"

definition CreateUsersTable :: "string list Migration" where
  "CreateUsersTable =
     \<lparr>mig_ID = ''001_create_users_table'',
      mig_Migrate = create_table ''users'',
      mig_Rollback = drop_table ''users''\<rparr>"

definition CreateFoldersTable :: "string list Migration" where
  "CreateFoldersTable =
     \<lparr>mig_ID = ''002_create_folders_table'',
      mig_Migrate = create_table ''folders'',
      mig_Rollback = drop_table ''folders''\<rparr>"

definition CreateFilesTable :: "string list Migration" where
  "CreateFilesTable =
     \<lparr>mig_ID = ''003_create_files_table'',
      mig_Migrate = create_table ''files'',
      mig_Rollback = drop_table ''files''\<rparr>"

definition CreateSharesTable :: "string list Migration" where
  "CreateSharesTable =
     \<lparr>mig_ID = ''004_create_shares_table'',
      mig_Migrate = create_table ''shares'',
      mig_Rollback = drop_table ''shares''\<rparr>"

text \<open>\<open>func RegisterMigrations\<close> of \<open>registry.go\<close>.\<close>

definition RegisterMigrations :: "string list Migration list" where
  "RegisterMigrations =
     AddMigration (AddMigration (AddMigration (AddMigration NewMigrator
       CreateUsersTable) CreateFoldersTable) CreateFilesTable) CreateSharesTable"

subsection \<open>Vocabulary of the properties\<close>

text \<open>The ids the record table holds, in row order; none while the table is absent.\<close>

definition recorded :: "'s DB \<Rightarrow> string list" where
  "recorded db = (case migration_records db of None \<Rightarrow> [] | Some rows \<Rightarrow> map ID rows)"

text \<open>The rows of the record table; none while the table is absent.\<close>

definition rows_of :: "'s DB \<Rightarrow> MigrationRecord list" where
  "rows_of db = (case migration_records db of None \<Rightarrow> [] | Some rows \<Rightarrow> rows)"

text \<open>The units of a registry that an applied set leaves pending, in registration order.\<close>

definition pending :: "(string \<Rightarrow> bool) \<Rightarrow> 's Migration list \<Rightarrow> 's Migration list" where
  "pending applied migrations = filter (\<lambda>m. \<not> applied (mig_ID m)) migrations"

text \<open>The schema after the bodies of a list of units have run one after the other.\<close>

fun forward_all :: "'s Migration list \<Rightarrow> 's \<Rightarrow> cause + 's" where
  "forward_all [] s = Inr s"
| "forward_all (m # ms) s =
     (case mig_Migrate m s of Inl e \<Rightarrow> Inl e | Inr s' \<Rightarrow> forward_all ms s')"

fun backward_all :: "'s Migration list \<Rightarrow> 's \<Rightarrow> cause + 's" where
  "backward_all [] s = Inr s"
| "backward_all (m # ms) s =
     (case mig_Rollback m s of Inl e \<Rightarrow> Inl e | Inr s' \<Rightarrow> backward_all ms s')"

text \<open>The rows that units committed one after the other from clock reading \<open>k\<close> on leave.\<close>

definition stamped :: "'s env \<Rightarrow> nat \<Rightarrow> string list \<Rightarrow> MigrationRecord list" where
  "stamped env k ids =
     map (\<lambda>(i, j). \<lparr>ID = i, AppliedAt = clock env j\<rparr>) (zip ids [k ..< k + length ids])"

text \<open>The log of a list of units that all commit.\<close>

definition success_log :: "string list \<Rightarrow> event list" where
  "success_log ids = concat (map (\<lambda>i. [Running i, Successful i]) ids)"

text \<open>A call of the engine, and the store a call and a sequence of calls leave.\<close>

datatype call = CallMigrate | CallRollback int

fun exec :: "'s env \<Rightarrow> 's Migration list \<Rightarrow> call \<Rightarrow> 's DB \<Rightarrow> 's DB" where
  "exec env migrations CallMigrate db = snd (snd (Migrate env migrations db))"
| "exec env migrations (CallRollback n) db = snd (snd (Rollback env migrations n db))"

definition run_calls :: "'s env \<Rightarrow> 's Migration list \<Rightarrow> call list \<Rightarrow> 's DB \<Rightarrow> 's DB" where
  "run_calls env migrations calls db = fold (exec env migrations) calls db"

text \<open>A list without the repetitions of its elements: each element where it occurs first.\<close>

primrec firsts :: "'a list \<Rightarrow> 'a list" where
  "firsts [] = []"
| "firsts (x # xs) = x # filter (\<lambda>y. y \<noteq> x) (firsts xs)"

text \<open>
  The invariant of the reachable stores: the recorded ids, in row order, are the first ids
  of the registry, each where it occurs first; and the rows are in strictly ascending order
  of \<open>applied_at\<close>, all of them older than the next reading of the clock.
\<close>

definition in_order :: "'s env \<Rightarrow> 's Migration list \<Rightarrow> 's DB \<Rightarrow> bool" where
  "in_order env migrations db \<longleftrightarrow>
     prefix (recorded db) (firsts (map mig_ID migrations)) \<and>
     sorted_wrt (<) (map AppliedAt (rows_of db)) \<and>
     list_all (\<lambda>x. AppliedAt x < clock env (tick db)) (rows_of db)"

text \<open>The ids of the log lines of each kind, in the order logged.\<close>

fun started :: "event list \<Rightarrow> string list" where
  "started [] = []"
| "started (Running i # l) = i # started l"
| "started (e # l) = started l"

fun committed :: "event list \<Rightarrow> string list" where
  "committed [] = []"
| "committed (Successful i # l) = i # committed l"
| "committed (e # l) = committed l"

fun warned :: "event list \<Rightarrow> string list" where
  "warned [] = []"
| "warned (NotFound i # l) = i # warned l"
| "warned (e # l) = warned l"

fun undo_started :: "event list \<Rightarrow> string list" where
  "undo_started [] = []"
| "undo_started (RollingBack i # l) = i # undo_started l"
| "undo_started (e # l) = undo_started l"

fun undone :: "event list \<Rightarrow> string list" where
  "undone [] = []"
| "undone (RollbackSuccessful i # l) = i # undone l"
| "undone (e # l) = undone l"

text \<open>An environment whose store never fails on its own and whose clock counts 0, 1, 2, ...\<close>

definition quiet :: "string list env" where
  "quiet = \<lparr>faults = (\<lambda>c db. False), clock = (\<lambda>k. k)\<rparr>"

text \<open>A fresh store: no table at all, the record table included.\<close>

definition fresh :: "string list DB" where
  "fresh = \<lparr>schema = [], migration_records = None, tick = 0\<rparr>"

text \<open>The store after \<open>Migrate\<close> has run on the fresh store with the repository's registry.\<close>

definition migrated :: "string list DB" where
  "migrated =
     \<lparr>schema = [''users'', ''folders'', ''files'', ''shares''],
      migration_records = Some
        [\<lparr>ID = ''001_create_users_table'', AppliedAt = 0\<rparr>,
         \<lparr>ID = ''002_create_folders_table'', AppliedAt = 1\<rparr>,
         \<lparr>ID = ''003_create_files_table'', AppliedAt = 2\<rparr>,
         \<lparr>ID = ''004_create_shares_table'', AppliedAt = 3\<rparr>],
      tick = 4\<rparr>"

text \<open>A unit whose forward and backward bodies fail, and a registry that holds it second.\<close>

definition Broken :: "string list Migration" where
  "Broken =
     \<lparr>mig_ID = ''002_broken'',
      mig_Migrate = (\<lambda>s. Inl (UnitError ''boom'')),
      mig_Rollback = (\<lambda>s. Inl (UnitError ''boom''))\<rparr>"

definition broken_registry :: "string list Migration list" where
  "broken_registry = [CreateUsersTable, Broken, CreateFilesTable]"

text \<open>The store after the first unit of the repository's registry has committed.\<close>

definition users_only :: "string list DB" where
  "users_only =
     \<lparr>schema = [''users''],
      migration_records = Some [\<lparr>ID = ''001_create_users_table'', AppliedAt = 0\<rparr>],
      tick = 1\<rparr>"

text \<open>
  A store that records the three units of \<open>broken_registry\<close>, and the same store after
  the newest of them has been rolled back.
\<close>

definition broken_applied :: "string list DB" where
  "broken_applied =
     \<lparr>schema = [''users'', ''files''],
      migration_records = Some
        [\<lparr>ID = ''001_create_users_table'', AppliedAt = 0\<rparr>,
         \<lparr>ID = ''002_broken'', AppliedAt = 1\<rparr>,
         \<lparr>ID = ''003_create_files_table'', AppliedAt = 2\<rparr>],
      tick = 3\<rparr>"

definition broken_left :: "string list DB" where
  "broken_left =
     \<lparr>schema = [''users''],
      migration_records = Some
        [\<lparr>ID = ''001_create_users_table'', AppliedAt = 0\<rparr>,
         \<lparr>ID = ''002_broken'', AppliedAt = 1\<rparr>],
      tick = 3\<rparr>"

text \<open>
  A store that records, after the four units of the repository's registry, a unit the
  registry does not hold.
\<close>

definition skewed :: "string list DB" where
  "skewed =
     \<lparr>schema = [''users'', ''folders'', ''files'', ''shares'', ''extra''],
      migration_records = Some
        [\<lparr>ID = ''001_create_users_table'', AppliedAt = 0\<rparr>,
         \<lparr>ID = ''002_create_folders_table'', AppliedAt = 1\<rparr>,
         \<lparr>ID = ''003_create_files_table'', AppliedAt = 2\<rparr>,
         \<lparr>ID = ''004_create_shares_table'', AppliedAt = 3\<rparr>,
         \<lparr>ID = ''005_removed'', AppliedAt = 4\<rparr>],
      tick = 5\<rparr>"

text \<open>
  A registry whose registration order is not the order of its id strings, and the store
  after \<open>Migrate\<close> has applied it to the fresh store.
\<close>

definition unordered_registry :: "string list Migration list" where
  "unordered_registry = [CreateFilesTable, CreateUsersTable, CreateFoldersTable]"

definition unordered_applied :: "string list DB" where
  "unordered_applied =
     \<lparr>schema = [''files'', ''users'', ''folders''],
      migration_records = Some
        [\<lparr>ID = ''003_create_files_table'', AppliedAt = 0\<rparr>,
         \<lparr>ID = ''001_create_users_table'', AppliedAt = 1\<rparr>,
         \<lparr>ID = ''002_create_folders_table'', AppliedAt = 2\<rparr>],
      tick = 3\<rparr>"

text \<open>
  A unit whose forward body needs the table of an earlier unit, and whose id sorts before
  that unit's id; a registry that registers it after that unit, and one that registers it
  first.
\<close>

definition CreateProfilesTable :: "string list Migration" where
  "CreateProfilesTable =
     \<lparr>mig_ID = ''000_create_profiles_table'',
      mig_Migrate =
        (\<lambda>s. if ''users'' \<in> set s then create_table ''profiles'' s
             else Inl (UnitError ''no users table'')),
      mig_Rollback = drop_table ''profiles''\<rparr>"

definition users_then_profiles :: "string list Migration list" where
  "users_then_profiles = [CreateUsersTable, CreateProfilesTable]"

definition profiles_then_users :: "string list Migration list" where
  "profiles_then_users = [CreateProfilesTable, CreateUsersTable]"

section \<open>Properties\<close>

lemmas eval_defs = Migrate_def Rollback_def AutoMigrate_def Find_def Find_recent_def Limit_def
  Order_applied_at_DESC_def Begin_def Commit_def Create_def Delete_def run_body_def
  migrate_tx_def rollback_tx_def appliedMap_def migrationsMap_def
  NewMigrator_def AddMigration_def RegisterMigrations_def
  CreateUsersTable_def CreateFoldersTable_def CreateFilesTable_def CreateSharesTable_def
  create_table_def drop_table_def quiet_def fresh_def migrated_def

lemmas broken_defs = Broken_def broken_registry_def users_only_def broken_applied_def
  broken_left_def

text \<open>
  The scenario of the spec: on a fresh store \<open>Migrate\<close> applies the four units of the
  registry in order, and \<open>Rollback(1)\<close> then undoes the last one.
\<close>

lemma Migrate_fresh:
  "Migrate quiet RegisterMigrations fresh =
     (None,
      [Running ''001_create_users_table'', Successful ''001_create_users_table'',
       Running ''002_create_folders_table'', Successful ''002_create_folders_table'',
       Running ''003_create_files_table'', Successful ''003_create_files_table'',
       Running ''004_create_shares_table'', Successful ''004_create_shares_table''],
      migrated)"
  by (simp add: eval_defs)

lemma Rollback_1_migrated:
  "Rollback quiet RegisterMigrations 1 migrated =
     (None,
      [RollingBack ''004_create_shares_table'', RollbackSuccessful ''004_create_shares_table''],
      \<lparr>schema = [''users'', ''folders'', ''files''],
       migration_records = Some
         [\<lparr>ID = ''001_create_users_table'', AppliedAt = 0\<rparr>,
          \<lparr>ID = ''002_create_folders_table'', AppliedAt = 1\<rparr>,
          \<lparr>ID = ''003_create_files_table'', AppliedAt = 2\<rparr>],
       tick = 4\<rparr>)"
  by (simp add: eval_defs)

subsection \<open>The store layer and the two transactions\<close>

lemma appliedMap_fold:
  "fold (\<lambda>r m. m(ID r := True)) rows f i \<longleftrightarrow> f i \<or> i \<in> set (map ID rows)"
  by (induction rows arbitrary: f) auto

lemma appliedMap_iff: "appliedMap rows i \<longleftrightarrow> i \<in> set (map ID rows)"
  by (simp add: appliedMap_def appliedMap_fold)

lemma migrationsMap_fold_None:
  "fold (\<lambda>m mp. mp(mig_ID m \<mapsto> m)) ms f i = None \<longleftrightarrow> f i = None \<and> i \<notin> set (map mig_ID ms)"
  by (induction ms arbitrary: f) auto

lemma migrationsMap_None: "migrationsMap ms i = None \<longleftrightarrow> i \<notin> set (map mig_ID ms)"
  by (simp add: migrationsMap_def migrationsMap_fold_None)

lemma migrationsMap_fold_Some:
  "fold (\<lambda>m mp. mp(mig_ID m \<mapsto> m)) ms f i = Some u \<Longrightarrow>
     f i = Some u \<or> (u \<in> set ms \<and> mig_ID u = i)"
proof (induction ms arbitrary: f)
  case Nil
  then show ?case by simp
next
  case (Cons a ms)
  from Cons.prems have "fold (\<lambda>m mp. mp(mig_ID m \<mapsto> m)) ms (f(mig_ID a \<mapsto> a)) i = Some u"
    by (simp only: fold_simps)
  from Cons.IH [OF this] show ?case
    by (auto split: if_splits)
qed

lemma migrationsMap_Some: "migrationsMap ms i = Some u \<Longrightarrow> u \<in> set ms \<and> mig_ID u = i"
  using migrationsMap_fold_Some [of ms Map.empty i u] by (simp add: migrationsMap_def)

text \<open>What a committed transaction of \<open>Migrate\<close> has done, and when it commits.\<close>

lemma migrate_tx_Inr:
  "migrate_tx env m db = Inr db' \<longleftrightarrow>
     (\<exists>s rows. mig_Migrate m (schema db) = Inr s \<and> migration_records db = Some rows \<and>
        mig_ID m \<notin> set (map ID rows) \<and> \<not> faults env OpBegin db \<and>
        \<not> faults env (OpCreate (mig_ID m)) (db\<lparr>schema := s\<rparr>) \<and>
        db' = db\<lparr>schema := s,
                 migration_records :=
                   Some (rows @ [\<lparr>ID = mig_ID m, AppliedAt = clock env (tick db)\<rparr>]),
                 tick := Suc (tick db)\<rparr> \<and>
        \<not> faults env OpCommit db')"
  by (auto simp: migrate_tx_def Begin_def run_body_def Create_def Commit_def
           split: sum.splits option.splits if_splits)

lemma rollback_tx_Inr:
  "rollback_tx env m i db = Inr db' \<longleftrightarrow>
     (\<exists>s rows. mig_Rollback m (schema db) = Inr s \<and> migration_records db = Some rows \<and>
        \<not> faults env OpBegin db \<and> \<not> faults env (OpDelete i) (db\<lparr>schema := s\<rparr>) \<and>
        db' = db\<lparr>schema := s, migration_records := Some (filter (\<lambda>r. ID r \<noteq> i) rows)\<rparr> \<and>
        \<not> faults env OpCommit db')"
  by (auto simp: rollback_tx_def Begin_def run_body_def Delete_def Commit_def
           split: sum.splits option.splits if_splits)


subsection \<open>The loop of \<open>Migrate\<close>\<close>

lemma stamped_Nil [simp]: "stamped env k [] = []"
  by (simp add: stamped_def)

lemma map_ID_stamped [simp]: "map ID (stamped env k ids) = ids"
  by (simp add: stamped_def split_def o_def)

lemma length_stamped [simp]: "length (stamped env k ids) = length ids"
  by (simp add: stamped_def)

lemma set_stamped_AppliedAt:
  assumes "x \<in> set (stamped env k ids)"
  shows "\<exists>j. k \<le> j \<and> j < k + length ids \<and> AppliedAt x = clock env j"
proof -
  from assms obtain i j where ij: "(i, j) \<in> set (zip ids [k ..< k + length ids])"
    and x: "x = \<lparr>ID = i, AppliedAt = clock env j\<rparr>"
    by (auto simp: stamped_def)
  from ij have "j \<in> set [k ..< k + length ids]" by (rule set_zip_rightD)
  with x show ?thesis by auto
qed


text \<open>
  The loop only appends rows: one for each unit it logged as successful, in that order,
  stamped with consecutive readings of the clock.
\<close>

lemma run_pending_records:
  "run_pending env ap ms db = (r, l, db') \<Longrightarrow> migration_records db = Some rows \<Longrightarrow>
     migration_records db' = Some (rows @ stamped env (tick db) (committed l))
     \<and> tick db' = tick db + length (committed l)"
proof (induction ms arbitrary: db r l db' rows)
  case Nil
  then show ?case by (simp add: stamped_def)
next
  case (Cons m ms)
  show ?case
  proof (cases "ap (mig_ID m)")
    case True
    with Cons.prems have "run_pending env ap ms db = (r, l, db')" by simp
    from Cons.IH [OF this Cons.prems(2)] show ?thesis .
  next
    case False
    show ?thesis
    proof (cases "migrate_tx env m db")
      case (Inl e)
      with False Cons.prems show ?thesis by auto
    next
      case (Inr d0)
      obtain r1 l1 d1 where rest: "run_pending env ap ms d0 = (r1, l1, d1)"
        by (cases "run_pending env ap ms d0") auto
      with False Inr Cons.prems
      have eq: "r = r1" "l = Running (mig_ID m) # Successful (mig_ID m) # l1" "db' = d1"
        by auto
      from Inr Cons.prems(2)
      have d0: "migration_records d0 =
                  Some (rows @ [\<lparr>ID = mig_ID m, AppliedAt = clock env (tick db)\<rparr>])"
               "tick d0 = Suc (tick db)"
        by (auto simp: migrate_tx_Inr)
      have up: "[tick db ..< tick db + Suc (length (committed l1))] =
                  tick db # [Suc (tick db) ..< Suc (tick db) + length (committed l1)]"
        by (subst upt_conv_Cons) simp_all
      from Cons.IH [OF rest d0(1)] d0(2) eq up show ?thesis
        by (simp add: stamped_def)
    qed
  qed
qed

lemma run_pending_table:
  "migration_records db \<noteq> None \<Longrightarrow>
     migration_records (snd (snd (run_pending env ap ms db))) \<noteq> None"
  using run_pending_records [of env ap ms db]
  by (cases "run_pending env ap ms db") auto

text \<open>The loop skips the units of the applied set: it is the loop over the pending units.\<close>

lemma run_pending_filter:
  "run_pending env ap ms db = run_pending env ap (pending ap ms) db"
  by (induction ms arbitrary: db) (auto simp: pending_def split: sum.splits prod.splits)

lemma run_pending_all_applied:
  "\<forall>m \<in> set ms. ap (mig_ID m) \<Longrightarrow> run_pending env ap ms db = (None, [], db)"
  by (induction ms) auto

text \<open>The loop over a list is the loop over its first part and then, unless that failed, over the rest.\<close>

lemma run_pending_append:
  "run_pending env ap (xs @ ys) db =
     (case run_pending env ap xs db of
        (None, l, d) \<Rightarrow> (case run_pending env ap ys d of (r, l', d') \<Rightarrow> (r, l @ l', d'))
      | (Some e, l, d) \<Rightarrow> (Some e, l, d))"
  by (induction xs arbitrary: db) (auto split: sum.splits prod.splits option.splits)

text \<open>A run of the loop that returns \<open>nil\<close> has committed every pending unit, in order.\<close>

lemma run_pending_None:
  "run_pending env ap ms db = (None, l, db') \<Longrightarrow>
     l = success_log (map mig_ID (pending ap ms)) \<and>
     forward_all (pending ap ms) (schema db) = Inr (schema db')"
proof (induction ms arbitrary: db l db')
  case Nil
  then show ?case by (simp add: pending_def success_log_def)
next
  case (Cons m ms)
  show ?case
  proof (cases "ap (mig_ID m)")
    case True
    with Cons.prems have "run_pending env ap ms db = (None, l, db')" by simp
    from Cons.IH [OF this] True show ?thesis by (simp add: pending_def)
  next
    case False
    show ?thesis
    proof (cases "migrate_tx env m db")
      case (Inl e)
      with False Cons.prems show ?thesis by auto
    next
      case (Inr d0)
      obtain r1 l1 d1 where rest: "run_pending env ap ms d0 = (r1, l1, d1)"
        by (cases "run_pending env ap ms d0") auto
      with False Inr Cons.prems
      have eq: "r1 = None" "l = Running (mig_ID m) # Successful (mig_ID m) # l1" "db' = d1"
        by auto
      from Inr obtain s where s: "mig_Migrate m (schema db) = Inr s" "schema d0 = s"
        by (auto simp: migrate_tx_Inr)
      from Cons.IH [of d0 l1 d1] rest eq s False show ?thesis
        by (simp add: pending_def success_log_def)
    qed
  qed
qed

text \<open>
  A run of the loop that returns an error has committed the pending units before one of
  them, whose transaction failed with that error; nothing after it was started.
\<close>

lemma run_pending_Some:
  "run_pending env ap ms db = (Some e, l, db') \<Longrightarrow>
     \<exists>pre u post l0. pending ap ms = pre @ u # post \<and>
       run_pending env ap pre db = (None, l0, db') \<and> migrate_tx env u db' = Inl e \<and>
       l = l0 @ [Running (mig_ID u)]"
proof (induction ms arbitrary: db l)
  case Nil
  then show ?case by simp
next
  case (Cons m ms)
  show ?case
  proof (cases "ap (mig_ID m)")
    case True
    with Cons.prems have "run_pending env ap ms db = (Some e, l, db')" by simp
    from Cons.IH [OF this] True show ?thesis by (simp add: pending_def)
  next
    case False
    show ?thesis
    proof (cases "migrate_tx env m db")
      case (Inl e')
      with False Cons.prems have "e' = e" "l = [Running (mig_ID m)]" "db' = db"
        by auto
      with Inl False have "pending ap (m # ms) = [] @ m # pending ap ms \<and>
          run_pending env ap [] db = (None, [], db') \<and> migrate_tx env m db' = Inl e \<and>
          l = [] @ [Running (mig_ID m)]"
        by (simp add: pending_def)
      then show ?thesis by blast
    next
      case (Inr d0)
      obtain r1 l1 d1 where rest: "run_pending env ap ms d0 = (r1, l1, d1)"
        by (cases "run_pending env ap ms d0") auto
      with False Inr Cons.prems
      have eq: "r1 = Some e" "l = Running (mig_ID m) # Successful (mig_ID m) # l1" "d1 = db'"
        by auto
      from Cons.IH [of d0 l1] rest eq
      obtain pre u post l0 where
        dec: "pending ap ms = pre @ u # post" "run_pending env ap pre d0 = (None, l0, db')"
          "migrate_tx env u db' = Inl e" "l1 = l0 @ [Running (mig_ID u)]"
        by auto
      from dec(2) False Inr
      have "run_pending env ap (m # pre) db =
              (None, Running (mig_ID m) # Successful (mig_ID m) # l0, db')"
        by simp
      moreover from dec(1) False have "pending ap (m # ms) = (m # pre) @ u # post"
        by (simp add: pending_def)
      moreover from dec(4) eq(2)
      have "l = (Running (mig_ID m) # Successful (mig_ID m) # l0) @ [Running (mig_ID u)]"
        by simp
      ultimately show ?thesis using dec(3) by blast
    qed
  qed
qed

lemma started_success_log [simp]: "started (success_log ids) = ids"
  by (induction ids) (simp_all add: success_log_def)

lemma committed_success_log [simp]: "committed (success_log ids) = ids"
  by (induction ids) (simp_all add: success_log_def)

lemma started_append [simp]: "started (l @ l') = started l @ started l'"
  by (induction l rule: started.induct) simp_all

lemma committed_append [simp]: "committed (l @ l') = committed l @ committed l'"
  by (induction l rule: committed.induct) simp_all

lemma pending_idem: "pending ap (pending ap ms) = pending ap ms"
  by (simp add: pending_def)

lemma pending_append: "pending ap (xs @ ys) = pending ap xs @ pending ap ys"
  by (simp add: pending_def)

lemma pending_prefix:
  assumes "pending ap ms = pre @ rest"
  shows "pending ap pre = pre"
proof -
  have "set pre \<subseteq> set (pending ap ms)" using assms by simp
  then have "\<forall>m \<in> set pre. \<not> ap (mig_ID m)" by (auto simp: pending_def)
  then show ?thesis by (simp add: pending_def)
qed

lemma run_pending_log:
  assumes "run_pending env ap ms db = (r, l, db')"
  shows "prefix (started l) (map mig_ID (pending ap ms)) \<and> prefix (committed l) (started l) \<and>
         (r = None \<longrightarrow> committed l = map mig_ID (pending ap ms))"
proof (cases r)
  case None
  with assms run_pending_None [of env ap ms db l db'] show ?thesis by simp
next
  case (Some e)
  with assms run_pending_Some [of env ap ms db e l db']
  obtain pre u post l0 where
    dec: "pending ap ms = pre @ u # post" "run_pending env ap pre db = (None, l0, db')"
      "l = l0 @ [Running (mig_ID u)]"
    by auto
  from run_pending_None [OF dec(2)] pending_prefix [OF dec(1)]
  have "l0 = success_log (map mig_ID pre)" by simp
  with dec Some show ?thesis by (simp add: prefix_def)
qed

lemma registry_of_AddMigration: "foldl AddMigration NewMigrator us = us"
proof -
  have "foldl AddMigration acc us = acc @ us" for acc :: "'a Migration list"
    by (induction us arbitrary: acc) (simp_all add: AddMigration_def)
  then show ?thesis by (simp add: NewMigrator_def)
qed

lemma AutoMigrate_Inr:
  "AutoMigrate env db = Inr db1 \<Longrightarrow>
     rows_of db1 = rows_of db \<and> migration_records db1 = Some (rows_of db) \<and>
     schema db1 = schema db \<and> tick db1 = tick db"
  by (auto simp: AutoMigrate_def rows_of_def split: if_splits option.splits)

lemma Find_Inr:
  "Find env db = Inr rows \<longleftrightarrow> \<not> faults env OpFind db \<and> migration_records db = Some rows"
  by (auto simp: Find_def split: option.splits)

lemma recorded_rows_of: "recorded db = map ID (rows_of db)"
  by (simp add: recorded_def rows_of_def split: option.splits)

lemma pending_appliedMap:
  "pending (appliedMap rows) ms = filter (\<lambda>m. mig_ID m \<notin> set (map ID rows)) ms"
  by (simp add: pending_def appliedMap_iff)

lemma Migrate_log:
  assumes "Migrate env ms db = (r, l, db')"
  shows "prefix (started l) (map mig_ID (filter (\<lambda>m. mig_ID m \<notin> set (recorded db)) ms))
         \<and> prefix (committed l) (started l)
         \<and> (r = None \<longrightarrow>
              committed l = map mig_ID (filter (\<lambda>m. mig_ID m \<notin> set (recorded db)) ms))"
proof (cases "AutoMigrate env db")
  case (Inl c)
  with assms show ?thesis by (auto simp: Migrate_def)
next
  case (Inr db1)
  note auto_ok = this
  show ?thesis
  proof (cases "Find env db1")
    case (Inl c)
    with auto_ok assms show ?thesis by (auto simp: Migrate_def)
  next
    case (Inr rows)
    with auto_ok assms
    have run: "run_pending env (appliedMap rows) ms db1 = (r, l, db')"
      by (simp add: Migrate_def)
    from Inr AutoMigrate_Inr [OF auto_ok] have "map ID rows = recorded db"
      by (simp add: Find_Inr recorded_rows_of)
    with run_pending_log [OF run] show ?thesis
      by (simp add: pending_appliedMap)
  qed
qed

text \<open>
  What a run of \<open>Migrate\<close> has done to the store: for a first part \<open>pre\<close> of the units
  the store did not record, taken in the order of the registry, it has run the forward
  bodies one after the other and appended the records in that order, and it has done
  nothing else; when it returns \<open>nil\<close> that part is all of them.
\<close>

lemma run_pending_effects:
  assumes "run_pending env ap ms db = (r, l, db')"
  shows "\<exists>pre post. pending ap ms = pre @ post \<and> committed l = map mig_ID pre \<and>
           forward_all pre (schema db) = Inr (schema db') \<and> (r = None \<longrightarrow> post = [])"
proof (cases r)
  case None
  with assms run_pending_None [of env ap ms db l db']
  have "pending ap ms = pending ap ms @ [] \<and> committed l = map mig_ID (pending ap ms) \<and>
      forward_all (pending ap ms) (schema db) = Inr (schema db') \<and> (r = None \<longrightarrow> [] = [])"
    by simp
  then show ?thesis by blast
next
  case (Some e)
  with assms run_pending_Some [of env ap ms db e l db']
  obtain pre u post l0 where
    dec: "pending ap ms = pre @ u # post" "run_pending env ap pre db = (None, l0, db')"
      "l = l0 @ [Running (mig_ID u)]"
    by auto
  from run_pending_None [OF dec(2)] pending_prefix [OF dec(1)]
  have "l0 = success_log (map mig_ID pre)" "forward_all pre (schema db) = Inr (schema db')"
    by simp_all
  with dec Some have "pending ap ms = pre @ (u # post) \<and> committed l = map mig_ID pre \<and>
      forward_all pre (schema db) = Inr (schema db') \<and> (r = None \<longrightarrow> u # post = [])"
    by simp
  then show ?thesis by blast
qed

lemma Migrate_effects:
  assumes "Migrate env ms db = (r, l, db')"
  shows "\<exists>pre post. filter (\<lambda>m. mig_ID m \<notin> set (recorded db)) ms = pre @ post \<and>
           committed l = map mig_ID pre \<and>
           forward_all pre (schema db) = Inr (schema db') \<and>
           rows_of db' = rows_of db @ stamped env (tick db) (map mig_ID pre) \<and>
           (r = None \<longrightarrow> post = [])"
proof -
  let ?P = "filter (\<lambda>m. mig_ID m \<notin> set (recorded db)) ms"
  show ?thesis
  proof (cases "AutoMigrate env db")
    case (Inl c)
    with assms have f: "r \<noteq> None" "l = []" "db' = db" by (auto simp: Migrate_def)
    from f have "?P = [] @ ?P \<and> committed l = map mig_ID [] \<and>
        forward_all [] (schema db) = Inr (schema db') \<and>
        rows_of db' = rows_of db @ stamped env (tick db) (map mig_ID []) \<and>
        (r = None \<longrightarrow> ?P = [])"
      by auto
    then show ?thesis by blast
  next
    case (Inr db1)
    note auto_ok = this
    note db1 = AutoMigrate_Inr [OF auto_ok]
    show ?thesis
    proof (cases "Find env db1")
      case (Inl c)
      with auto_ok assms have f: "r \<noteq> None" "l = []" "db' = db1"
        by (auto simp: Migrate_def)
      from f db1 have "?P = [] @ ?P \<and> committed l = map mig_ID [] \<and>
          forward_all [] (schema db) = Inr (schema db') \<and>
          rows_of db' = rows_of db @ stamped env (tick db) (map mig_ID []) \<and>
          (r = None \<longrightarrow> ?P = [])"
        by auto
      then show ?thesis by blast
    next
      case (Inr rows)
      with auto_ok assms
      have loop: "run_pending env (appliedMap rows) ms db1 = (r, l, db')"
        by (simp add: Migrate_def)
      from Inr db1 have ids: "map ID rows = recorded db"
        by (simp add: Find_Inr recorded_rows_of)
      from run_pending_effects [OF loop] obtain pre post where
        eff: "pending (appliedMap rows) ms = pre @ post" "committed l = map mig_ID pre"
          "forward_all pre (schema db1) = Inr (schema db')" "r = None \<longrightarrow> post = []"
        by blast
      from db1 have "migration_records db1 = Some (rows_of db)" by simp
      from run_pending_records [OF loop this] db1 eff(2)
      have "rows_of db' = rows_of db @ stamped env (tick db) (map mig_ID pre)"
        by (simp add: rows_of_def)
      with eff db1 ids have "?P = pre @ post \<and> committed l = map mig_ID pre \<and>
          forward_all pre (schema db) = Inr (schema db') \<and>
          rows_of db' = rows_of db @ stamped env (tick db) (map mig_ID pre) \<and>
          (r = None \<longrightarrow> post = [])"
        by (simp add: pending_appliedMap)
      then show ?thesis by blast
    qed
  qed
qed

text \<open>\<open>Migrate\<close> on a store that has the record table.\<close>

lemma Migrate_on_present:
  "migration_records d = Some rows \<Longrightarrow>
     Migrate env ms d =
       (if faults env OpAutoMigrate d then (Some (FailedCreateTable StoreFault), [], d)
        else if faults env OpFind d then (Some (FailedGetApplied StoreFault), [], d)
        else run_pending env (appliedMap rows) ms d)"
  by (simp add: Migrate_def AutoMigrate_def Find_def)

text \<open>
  After a run of the loop that returned \<open>nil\<close> every unit of the registry is recorded, so
  that a second run skips them all, in any environment.
\<close>

lemma run_pending_again_success:
  assumes run: "run_pending env (appliedMap rows) ms d = (None, l, d')"
    and rows: "migration_records d = Some rows"
  shows "run_pending env' (appliedMap (rows_of d')) ms d' = (None, [], d')"
proof -
  from run_pending_records [OF run rows]
  have "map ID (rows_of d') = map ID rows @ committed l"
    by (simp add: rows_of_def)
  moreover from run_pending_None [OF run]
  have "committed l = map mig_ID (pending (appliedMap rows) ms)" by simp
  ultimately have "\<forall>m \<in> set ms. appliedMap (rows_of d') (mig_ID m)"
    by (auto simp: appliedMap_iff pending_def)
  then show ?thesis by (rule run_pending_all_applied)
qed

text \<open>
  Running the loop again on the store it left, with the applied set read from that store:
  when the first run returned \<open>nil\<close> everything is skipped; when it failed and the ids of
  the registry are pairwise distinct, the units committed are skipped and the unit that
  failed fails again, on the same store.
\<close>

lemma run_pending_again:
  assumes run: "run_pending env (appliedMap rows) ms d = (r, l, d')"
    and rows: "migration_records d = Some rows"
    and ok: "distinct (map mig_ID ms) \<or> r = None"
  shows "\<exists>l'. run_pending env (appliedMap (rows_of d')) ms d' = (r, l', d') \<and> committed l' = []
              \<and> (r = None \<longrightarrow> l' = [])"
proof -
  let ?ap = "appliedMap rows" and ?ap' = "appliedMap (rows_of d')"
  from run_pending_records [OF run rows]
  have ids': "map ID (rows_of d') = map ID rows @ committed l"
    by (simp add: rows_of_def)
  then have ap': "?ap' i \<longleftrightarrow> ?ap i \<or> i \<in> set (committed l)" for i
    by (auto simp: appliedMap_iff)
  show ?thesis
  proof (cases r)
    case None
    with run run_pending_None [of env ?ap ms d l d']
    have "committed l = map mig_ID (pending ?ap ms)" by simp
    then have "\<forall>m \<in> set ms. ?ap' (mig_ID m)"
      by (auto simp: ap' pending_def)
    then have "run_pending env ?ap' ms d' = (None, [], d')"
      by (rule run_pending_all_applied)
    with None show ?thesis by simp
  next
    case (Some e)
    with ok have dist: "distinct (map mig_ID ms)" by simp
    from Some run run_pending_Some [of env ?ap ms d e l d']
    obtain pre u post l0 where
      dec: "pending ?ap ms = pre @ u # post" "run_pending env ?ap pre d = (None, l0, d')"
        "migrate_tx env u d' = Inl e" "l = l0 @ [Running (mig_ID u)]"
      by auto
    from run_pending_None [OF dec(2)] pending_prefix [OF dec(1)] dec(4)
    have com: "committed l = map mig_ID pre" by simp
    from dist have "distinct (map mig_ID (pending ?ap ms))"
      by (simp add: pending_def distinct_map_filter)
    with dec(1) have sep: "mig_ID u \<notin> set (map mig_ID pre)"
      "\<forall>m \<in> set post. mig_ID m \<notin> set (map mig_ID pre)"
      by auto
    have "pending ?ap' ms = filter (\<lambda>m. mig_ID m \<notin> set (map mig_ID pre)) (pending ?ap ms)"
      by (auto simp: pending_def ap' com intro: filter_cong)
    also have "\<dots> = u # post"
      using sep by (auto simp: dec(1) filter_empty_conv filter_id_conv)
    finally have pend': "pending ?ap' ms = u # post" .
    then have "u \<in> set (pending ?ap' ms)" by simp
    then have "\<not> ?ap' (mig_ID u)" by (simp add: pending_def)
    with dec(3) have "run_pending env ?ap' (u # post) d' = (Some e, [Running (mig_ID u)], d')"
      by simp
    with pend' have "run_pending env ?ap' ms d' = (Some e, [Running (mig_ID u)], d')"
      by (simp add: run_pending_filter [of env ?ap' ms])
    with Some show ?thesis by simp
  qed
qed

subsection \<open>Claims on \<open>Migrate\<close>\<close>

text \<open>
  C1. \<open>Migrate\<close> is idempotent. Let the ids of the registry be pairwise distinct, as the
  data model has them, and let \<open>Migrate\<close> run twice in succession, on any store, with the
  same registry and in the same environment. Then the second run leaves the store as the
  first run left it (schema, record table and all), it commits no unit, and it starts no
  unit whose id the store records: every such unit is skipped. After a first run that
  returned \<open>nil\<close> the second starts no unit at all, and this holds for any registry and
  whatever the environment of the second run. After a first run that failed, the unit
  that failed is started again and fails again, the store being the same.
\<close>

theorem Migrate_idempotent:
  assumes first: "Migrate env migrations db = (r1, l1, db1)"
    and second: "Migrate env' migrations db1 = (r2, l2, db2)"
    and ok: "r1 = None \<or> (distinct (map mig_ID migrations) \<and> env' = env)"
  shows "db2 = db1 \<and> committed l2 = [] \<and> set (started l2) \<inter> set (recorded db1) = {}
         \<and> (r1 = None \<longrightarrow> started l2 = [])"
proof -
  from Migrate_log [OF second]
  have "set (started l2) \<subseteq>
      set (map mig_ID (filter (\<lambda>m. mig_ID m \<notin> set (recorded db1)) migrations))"
    by (blast dest: set_mono_prefix)
  then have skipped: "set (started l2) \<inter> set (recorded db1) = {}"
    by auto
  have "db2 = db1 \<and> committed l2 = [] \<and> (r1 = None \<longrightarrow> started l2 = [])"
  proof (cases "AutoMigrate env db")
    case (Inl c)
    with first have r1: "r1 = Some (FailedCreateTable c)" "l1 = []" "db1 = db"
      by (auto simp: Migrate_def)
    with ok have "env' = env" by simp
    with r1 first second show ?thesis by auto
  next
    case (Inr d1)
    note auto_ok = this
    from AutoMigrate_Inr [OF auto_ok] have table: "migration_records d1 = Some (rows_of db)"
      by simp
    show ?thesis
    proof (cases "Find env d1")
      case (Inl c)
      with auto_ok first have r1: "r1 = Some (FailedGetApplied c)" "db1 = d1"
        by (auto simp: Migrate_def)
      with ok have "env' = env" by simp
      moreover from Inl table have "faults env OpFind d1"
        by (auto simp: Find_def split: if_splits)
      ultimately show ?thesis
        using r1 second table by (auto simp: Migrate_on_present split: if_splits)
    next
      case (Inr rows)
      with table have rows: "rows = rows_of db" by (simp add: Find_Inr)
      from Inr auto_ok first
      have loop: "run_pending env (appliedMap rows) migrations d1 = (r1, l1, db1)"
        by (simp add: Migrate_def)
      from table rows have table': "migration_records d1 = Some rows" by simp
      from run_pending_records [OF loop table']
      have present: "migration_records db1 = Some (rows_of db1)"
        by (simp add: rows_of_def)
      have "\<exists>l'. run_pending env' (appliedMap (rows_of db1)) migrations db1 = (r1, l', db1) \<and>
          committed l' = [] \<and> (r1 = None \<longrightarrow> l' = [])"
      proof (cases r1)
        case None
        with loop have "run_pending env (appliedMap rows) migrations d1 = (None, l1, db1)"
          by simp
        from run_pending_again_success [OF this table'] None show ?thesis
          by simp
      next
        case (Some e)
        with ok have "distinct (map mig_ID migrations)" "env' = env" by simp_all
        with run_pending_again [OF loop table'] show ?thesis by simp
      qed
      then obtain l' where
        again: "run_pending env' (appliedMap (rows_of db1)) migrations db1 = (r1, l', db1)"
          "committed l' = []" "r1 = None \<longrightarrow> l' = []"
        by blast
      with second show ?thesis
        by (auto simp: Migrate_on_present [OF present] split: if_splits)
    qed
  qed
  with skipped show ?thesis by blast
qed

theorem Migrate_idempotent_witness:
  "Migrate quiet broken_registry fresh =
     (Some (MigrationFailed ''002_broken'' (UnitError ''boom'')),
      [Running ''001_create_users_table'', Successful ''001_create_users_table'',
       Running ''002_broken''],
      users_only)
   \<and> Migrate quiet broken_registry users_only =
     (Some (MigrationFailed ''002_broken'' (UnitError ''boom'')), [Running ''002_broken''],
      users_only)
   \<and> set (started [Running ''002_broken'']) \<inter> set (recorded users_only) = {}
   \<and> Migrate quiet RegisterMigrations migrated = (None, [], migrated)"
proof -
  have ok: "Some (MigrationFailed ''002_broken'' (UnitError ''boom'')) = None \<or>
      (distinct (map mig_ID broken_registry) \<and> quiet = quiet)"
    by (simp add: eval_defs broken_defs)
  have first: "Migrate quiet broken_registry fresh =
     (Some (MigrationFailed ''002_broken'' (UnitError ''boom'')),
      [Running ''001_create_users_table'', Successful ''001_create_users_table'',
       Running ''002_broken''],
      users_only)"
    by (simp add: eval_defs broken_defs)
  have second: "Migrate quiet broken_registry users_only =
     (Some (MigrationFailed ''002_broken'' (UnitError ''boom'')), [Running ''002_broken''],
      users_only)"
    by (simp add: eval_defs broken_defs)
  from Migrate_idempotent [OF first second ok]
  have skipped: "set (started [Running ''002_broken'']) \<inter> set (recorded users_only) = {}"
    by blast
  have again: "Migrate quiet RegisterMigrations migrated = (None, [], migrated)"
    by (simp add: eval_defs)
  from Migrate_idempotent [OF Migrate_fresh again] first second skipped again
  show ?thesis by blast
qed

text \<open>
  C3. \<open>Migrate\<close> applies the pending units in registration order. For a registry built by
  \<open>AddMigration\<close> calls on the units \<open>us\<close> in that order, and every store, let the
  pending units be the units of \<open>us\<close> whose id the store does not record, in the order of
  \<open>us\<close>. The units \<open>Migrate\<close> has applied are a first part \<open>pre\<close> of the pending units:
  the schema it leaves is the old schema after the forward bodies of \<open>pre\<close>, run one
  after the other in that order, the record table is the old rows followed by the rows of
  \<open>pre\<close> in that order, and the units logged as successful are those of \<open>pre\<close>. The
  units started ("Running migration") are a prefix of the pending units, in the same
  order, and those committed a prefix of those started. When \<open>Migrate\<close> returns \<open>nil\<close>,
  \<open>pre\<close> is all the pending units. No order on the id strings is involved.
\<close>

theorem Migrate_registration_order:
  assumes "Migrate env (foldl AddMigration NewMigrator us) db = (r, l, db')"
  shows "(\<exists>pre post.
            filter (\<lambda>m. mig_ID m \<notin> set (recorded db)) us = pre @ post \<and>
            committed l = map mig_ID pre \<and>
            forward_all pre (schema db) = Inr (schema db') \<and>
            rows_of db' = rows_of db @ stamped env (tick db) (map mig_ID pre) \<and>
            (r = None \<longrightarrow> post = []))
         \<and> prefix (started l) (map mig_ID (filter (\<lambda>m. mig_ID m \<notin> set (recorded db)) us))
         \<and> prefix (committed l) (started l)
         \<and> (r = None \<longrightarrow>
              committed l = map mig_ID (filter (\<lambda>m. mig_ID m \<notin> set (recorded db)) us))"
proof -
  from assms have run: "Migrate env us db = (r, l, db')"
    by (simp add: registry_of_AddMigration)
  from Migrate_effects [OF run] Migrate_log [OF run] show ?thesis
    by blast
qed

theorem Migrate_registration_order_witness:
  "Migrate quiet (foldl AddMigration NewMigrator users_then_profiles) fresh =
     (None,
      [Running ''001_create_users_table'', Successful ''001_create_users_table'',
       Running ''000_create_profiles_table'', Successful ''000_create_profiles_table''],
      \<lparr>schema = [''users'', ''profiles''],
       migration_records = Some
         [\<lparr>ID = ''001_create_users_table'', AppliedAt = 0\<rparr>,
          \<lparr>ID = ''000_create_profiles_table'', AppliedAt = 1\<rparr>],
       tick = 2\<rparr>)
   \<and> forward_all users_then_profiles (schema fresh) = Inr [''users'', ''profiles'']
   \<and> forward_all profiles_then_users (schema fresh) = Inl (UnitError ''no users table'')
   \<and> Migrate quiet (foldl AddMigration NewMigrator profiles_then_users) fresh =
     (Some (MigrationFailed ''000_create_profiles_table'' (UnitError ''no users table'')),
      [Running ''000_create_profiles_table''],
      \<lparr>schema = [], migration_records = Some [], tick = 0\<rparr>)"
proof -
  let ?after = "\<lparr>schema = [''users'', ''profiles''],
       migration_records = Some
         [\<lparr>ID = ''001_create_users_table'', AppliedAt = 0\<rparr>,
          \<lparr>ID = ''000_create_profiles_table'', AppliedAt = 1\<rparr>],
       tick = 2\<rparr>"
  have run: "Migrate quiet (foldl AddMigration NewMigrator users_then_profiles) fresh =
     (None,
      [Running ''001_create_users_table'', Successful ''001_create_users_table'',
       Running ''000_create_profiles_table'', Successful ''000_create_profiles_table''],
      ?after)"
    by (simp add: eval_defs CreateProfilesTable_def users_then_profiles_def)
  have pend: "filter (\<lambda>m. mig_ID m \<notin> set (recorded fresh)) users_then_profiles =
      users_then_profiles"
    by (simp add: recorded_def fresh_def)
  from Migrate_registration_order [OF run] obtain pre post where
    "filter (\<lambda>m. mig_ID m \<notin> set (recorded fresh)) users_then_profiles = pre @ post"
    "forward_all pre (schema fresh) = Inr (schema ?after)" "post = []"
    by auto
  with pend have applied: "forward_all users_then_profiles (schema fresh) =
      Inr [''users'', ''profiles'']"
    by simp
  have other: "forward_all profiles_then_users (schema fresh) =
      Inl (UnitError ''no users table'')"
    by (simp add: eval_defs CreateProfilesTable_def profiles_then_users_def)
  have rev: "Migrate quiet (foldl AddMigration NewMigrator profiles_then_users) fresh =
     (Some (MigrationFailed ''000_create_profiles_table'' (UnitError ''no users table'')),
      [Running ''000_create_profiles_table''],
      \<lparr>schema = [], migration_records = Some [], tick = 0\<rparr>)"
    by (simp add: eval_defs CreateProfilesTable_def profiles_then_users_def)
  from run applied other rev show ?thesis by blast
qed

text \<open>
  C2. \<open>Migrate\<close> is fail-fast and non-partial. Let the run reach the loop, let \<open>u\<close> be a
  pending unit, \<open>pre\<close> the pending units before it and \<open>post\<close> those after it, let the
  units of \<open>pre\<close> commit, leaving the store \<open>d\<close>, and let then the forward body of \<open>u\<close>
  fail or its record insert fail, with cause \<open>c\<close>. Then \<open>Migrate\<close> returns the error
  "migration u failed" or "failed to record migration u", which carries the id of \<open>u\<close>; the
  log ends with the start of \<open>u\<close>, so no unit of \<open>post\<close> is attempted; and the store is
  \<open>d\<close>, the store before the transaction of \<open>u\<close> began: its schema is the old schema
  after the forward bodies of \<open>pre\<close>, and its record table holds the old rows and one row
  for each unit of \<open>pre\<close>, none for \<open>u\<close>. So the id of \<open>u\<close> is recorded only if a unit
  of \<open>pre\<close> carries the same id, whose row it then is; among units of pairwise distinct
  ids it is not recorded.
\<close>

theorem Migrate_fail_fast:
  assumes reach: "AutoMigrate env db = Inr db1" "Find env db1 = Inr rows"
    and kth: "pending (appliedMap rows) migrations = pre @ u # post"
    and before: "run_pending env (appliedMap rows) pre db1 = (None, l0, d)"
    and opens: "\<not> faults env OpBegin d"
    and fails: "mig_Migrate u (schema d) = Inl c \<or>
                (\<exists>s. mig_Migrate u (schema d) = Inr s \<and>
                     Create env (d\<lparr>schema := s\<rparr>) (mig_ID u) = Inl c)"
  shows "(\<exists>e. Migrate env migrations db = (Some e, l0 @ [Running (mig_ID u)], d) \<and>
              annotated_id e = Some (mig_ID u) \<and>
              (e = MigrationFailed (mig_ID u) c \<or> e = FailedRecord (mig_ID u) c))
         \<and> l0 = success_log (map mig_ID pre)
         \<and> forward_all pre (schema db1) = Inr (schema d)
         \<and> migration_records d = Some (rows @ stamped env (tick db1) (map mig_ID pre))
         \<and> (mig_ID u \<in> set (recorded d) \<longleftrightarrow> mig_ID u \<in> set (map mig_ID pre))"
proof -
  let ?ap = "appliedMap rows"
  from fails opens obtain e where
    tx: "migrate_tx env u d = Inl e" and
    e: "e = MigrationFailed (mig_ID u) c \<or> e = FailedRecord (mig_ID u) c"
    by (auto simp: migrate_tx_def Begin_def run_body_def)
  from kth have "u \<in> set (pending ?ap migrations)" by simp
  then have unapplied: "\<not> ?ap (mig_ID u)" by (simp add: pending_def)
  with tx have "run_pending env ?ap (u # post) d = (Some e, [Running (mig_ID u)], d)"
    by simp
  with before have "run_pending env ?ap (pre @ u # post) db1 =
      (Some e, l0 @ [Running (mig_ID u)], d)"
    by (simp add: run_pending_append)
  with kth have "run_pending env ?ap migrations db1 = (Some e, l0 @ [Running (mig_ID u)], d)"
    by (simp add: run_pending_filter [of env ?ap migrations])
  with reach have run: "Migrate env migrations db = (Some e, l0 @ [Running (mig_ID u)], d)"
    by (simp add: Migrate_def)
  from e have ann: "annotated_id e = Some (mig_ID u)" by auto
  from run_pending_None [OF before] pending_prefix [OF kth]
  have l0: "l0 = success_log (map mig_ID pre)" and
    sch: "forward_all pre (schema db1) = Inr (schema d)"
    by simp_all
  from reach(2) have rows: "migration_records db1 = Some rows" by (simp add: Find_Inr)
  from run_pending_records [OF before rows] l0
  have recs: "migration_records d = Some (rows @ stamped env (tick db1) (map mig_ID pre))"
    by simp
  then have "recorded d = map ID rows @ map mig_ID pre"
    by (simp add: recorded_def)
  with unapplied have "mig_ID u \<in> set (recorded d) \<longleftrightarrow> mig_ID u \<in> set (map mig_ID pre)"
    by (simp add: appliedMap_iff)
  with run ann e l0 sch recs show ?thesis by blast
qed

theorem Migrate_fail_fast_witness:
  "Migrate quiet broken_registry fresh =
     (Some (MigrationFailed ''002_broken'' (UnitError ''boom'')),
      [Running ''001_create_users_table'', Successful ''001_create_users_table'',
       Running ''002_broken''],
      users_only)
   \<and> ''002_broken'' \<notin> set (recorded users_only)"
proof -
  have reach: "AutoMigrate quiet fresh = Inr (fresh\<lparr>migration_records := Some []\<rparr>)"
    "Find quiet (fresh\<lparr>migration_records := Some []\<rparr>) = Inr []"
    by (simp_all add: eval_defs broken_defs)
  have kth: "pending (appliedMap []) broken_registry = [CreateUsersTable] @ Broken # [CreateFilesTable]"
    by (simp add: pending_def eval_defs broken_defs)
  have before: "run_pending quiet (appliedMap []) [CreateUsersTable]
      (fresh\<lparr>migration_records := Some []\<rparr>) =
      (None, [Running ''001_create_users_table'', Successful ''001_create_users_table''], users_only)"
    by (simp add: eval_defs broken_defs)
  have opens: "\<not> faults quiet OpBegin users_only"
    by (simp add: quiet_def)
  have fails: "mig_Migrate Broken (schema users_only) = Inl (UnitError ''boom'') \<or>
      (\<exists>s. mig_Migrate Broken (schema users_only) = Inr s \<and>
           Create quiet (users_only\<lparr>schema := s\<rparr>) (mig_ID Broken) = Inl (UnitError ''boom''))"
    by (simp add: Broken_def)
  have run: "Migrate quiet broken_registry fresh =
     (Some (MigrationFailed ''002_broken'' (UnitError ''boom'')),
      [Running ''001_create_users_table'', Successful ''001_create_users_table'',
       Running ''002_broken''],
      users_only)"
    by (simp add: eval_defs broken_defs)
  from Migrate_fail_fast [OF reach kth before opens fails]
  have "mig_ID Broken \<in> set (recorded users_only) \<longleftrightarrow>
      mig_ID Broken \<in> set (map mig_ID [CreateUsersTable])"
    by blast
  then have "''002_broken'' \<notin> set (recorded users_only)"
    by (simp add: Broken_def CreateUsersTable_def)
  with run show ?thesis
    by simp
qed

subsection \<open>The loop of \<open>Rollback\<close>\<close>

text \<open>
  The loop only removes rows, and the rows it removes are those of the units it logged as
  rolled back; it never reads the clock.
\<close>

lemma run_rollbacks_records:
  "run_rollbacks env mp recs db = (r, l, db') \<Longrightarrow> migration_records db = Some rows \<Longrightarrow>
     migration_records db' = Some (filter (\<lambda>x. ID x \<notin> set (undone l)) rows) \<and> tick db' = tick db"
proof (induction recs arbitrary: db r l db' rows)
  case Nil
  then show ?case by simp
next
  case (Cons rec recs)
  show ?case
  proof (cases "mp (ID rec)")
    case None
    obtain r1 l1 d1 where rest: "run_rollbacks env mp recs db = (r1, l1, d1)"
      by (cases "run_rollbacks env mp recs db") auto
    with None Cons.prems have eq: "r = r1" "l = NotFound (ID rec) # l1" "db' = d1"
      by auto
    from Cons.IH [OF rest Cons.prems(2)] eq show ?thesis by simp
  next
    case (Some m)
    show ?thesis
    proof (cases "rollback_tx env m (ID rec) db")
      case (Inl e)
      with Some Cons.prems show ?thesis by auto
    next
      case (Inr d0)
      obtain r1 l1 d1 where rest: "run_rollbacks env mp recs d0 = (r1, l1, d1)"
        by (cases "run_rollbacks env mp recs d0") auto
      with Some Inr Cons.prems
      have eq: "r = r1" "l = RollingBack (ID rec) # RollbackSuccessful (ID rec) # l1" "db' = d1"
        by auto
      from Inr Cons.prems(2)
      have d0: "migration_records d0 = Some (filter (\<lambda>x. ID x \<noteq> ID rec) rows)" "tick d0 = tick db"
        by (auto simp: rollback_tx_Inr)
      from Cons.IH [OF rest d0(1)] d0(2) eq show ?thesis
        by (simp add: conj_commute)
    qed
  qed
qed

text \<open>While the record table is absent the loop cannot commit anything.\<close>

lemma run_rollbacks_no_table:
  "migration_records db = None \<Longrightarrow> snd (snd (run_rollbacks env mp recs db)) = db"
  by (induction recs) (auto simp: rollback_tx_Inr split: option.splits sum.splits prod.splits)

text \<open>A run of the loop that returns \<open>nil\<close> has handled every record, in order.\<close>

lemma run_rollbacks_None:
  "run_rollbacks env mp recs db = (None, l, db') \<Longrightarrow>
     undone l = map ID (filter (\<lambda>x. mp (ID x) \<noteq> None) recs) \<and>
     undo_started l = undone l \<and>
     warned l = map ID (filter (\<lambda>x. mp (ID x) = None) recs)"
proof (induction recs arbitrary: db l db')
  case Nil
  then show ?case by simp
next
  case (Cons rec recs)
  show ?case
  proof (cases "mp (ID rec)")
    case None
    obtain r1 l1 d1 where rest: "run_rollbacks env mp recs db = (r1, l1, d1)"
      by (cases "run_rollbacks env mp recs db") auto
    with None Cons.prems have eq: "r1 = None" "l = NotFound (ID rec) # l1"
      by auto
    from Cons.IH [of db l1 d1] rest eq None show ?thesis by simp
  next
    case (Some m)
    show ?thesis
    proof (cases "rollback_tx env m (ID rec) db")
      case (Inl e)
      with Some Cons.prems show ?thesis by auto
    next
      case (Inr d0)
      obtain r1 l1 d1 where rest: "run_rollbacks env mp recs d0 = (r1, l1, d1)"
        by (cases "run_rollbacks env mp recs d0") auto
      with Some Inr Cons.prems
      have eq: "r1 = None" "l = RollingBack (ID rec) # RollbackSuccessful (ID rec) # l1"
        by auto
      from Cons.IH [of d0 l1 d1] rest eq Some show ?thesis by simp
    qed
  qed
qed

lemma run_rollbacks_append:
  "run_rollbacks env mp (xs @ ys) db =
     (case run_rollbacks env mp xs db of
        (None, l, d) \<Rightarrow> (case run_rollbacks env mp ys d of (r, l', d') \<Rightarrow> (r, l @ l', d'))
      | (Some e, l, d) \<Rightarrow> (Some e, l, d))"
  by (induction xs arbitrary: db) (auto split: sum.splits prod.splits option.splits)

text \<open>
  A run of the loop that returns an error has handled the records before one of them,
  whose unit is known and whose transaction failed with that error; nothing after it was
  started.
\<close>

lemma run_rollbacks_Some:
  "run_rollbacks env mp recs db = (Some e, l, db') \<Longrightarrow>
     \<exists>pre rec post m l0. recs = pre @ rec # post \<and>
       run_rollbacks env mp pre db = (None, l0, db') \<and> mp (ID rec) = Some m \<and>
       rollback_tx env m (ID rec) db' = Inl e \<and> l = l0 @ [RollingBack (ID rec)]"
proof (induction recs arbitrary: db l)
  case Nil
  then show ?case by simp
next
  case (Cons x recs)
  show ?case
  proof (cases "mp (ID x)")
    case None
    obtain r1 l1 d1 where rest: "run_rollbacks env mp recs db = (r1, l1, d1)"
      by (cases "run_rollbacks env mp recs db") auto
    with None Cons.prems have eq: "r1 = Some e" "l = NotFound (ID x) # l1" "d1 = db'"
      by auto
    from Cons.IH [of db l1] rest eq
    obtain pre rec post m l0 where
      dec: "recs = pre @ rec # post" "run_rollbacks env mp pre db = (None, l0, db')"
        "mp (ID rec) = Some m" "rollback_tx env m (ID rec) db' = Inl e"
        "l1 = l0 @ [RollingBack (ID rec)]"
      by auto
    from dec(2) None
    have "run_rollbacks env mp (x # pre) db = (None, NotFound (ID x) # l0, db')"
      by simp
    moreover from dec(1) have "x # recs = (x # pre) @ rec # post" by simp
    moreover from dec(5) eq(2) have "l = (NotFound (ID x) # l0) @ [RollingBack (ID rec)]"
      by simp
    ultimately show ?thesis using dec(3,4) by blast
  next
    case (Some u)
    show ?thesis
    proof (cases "rollback_tx env u (ID x) db")
      case (Inl e')
      with Some Cons.prems have "e' = e" "l = [RollingBack (ID x)]" "db' = db"
        by auto
      with Inl Some have "x # recs = [] @ x # recs \<and>
          run_rollbacks env mp [] db = (None, [], db') \<and> mp (ID x) = Some u \<and>
          rollback_tx env u (ID x) db' = Inl e \<and> l = [] @ [RollingBack (ID x)]"
        by simp
      then show ?thesis by blast
    next
      case (Inr d0)
      obtain r1 l1 d1 where rest: "run_rollbacks env mp recs d0 = (r1, l1, d1)"
        by (cases "run_rollbacks env mp recs d0") auto
      with Some Inr Cons.prems
      have eq: "r1 = Some e" "l = RollingBack (ID x) # RollbackSuccessful (ID x) # l1"
        "d1 = db'"
        by auto
      from Cons.IH [of d0 l1] rest eq
      obtain pre rec post m l0 where
        dec: "recs = pre @ rec # post" "run_rollbacks env mp pre d0 = (None, l0, db')"
          "mp (ID rec) = Some m" "rollback_tx env m (ID rec) db' = Inl e"
          "l1 = l0 @ [RollingBack (ID rec)]"
        by auto
      from dec(2) Some Inr
      have "run_rollbacks env mp (x # pre) db =
              (None, RollingBack (ID x) # RollbackSuccessful (ID x) # l0, db')"
        by simp
      moreover from dec(1) have "x # recs = (x # pre) @ rec # post" by simp
      moreover from dec(5) eq(2)
      have "l = (RollingBack (ID x) # RollbackSuccessful (ID x) # l0) @ [RollingBack (ID rec)]"
        by simp
      ultimately show ?thesis using dec(3,4) by blast
    qed
  qed
qed

lemma undone_append [simp]: "undone (l @ l') = undone l @ undone l'"
  by (induction l rule: undone.induct) simp_all

lemma undo_started_append [simp]: "undo_started (l @ l') = undo_started l @ undo_started l'"
  by (induction l rule: undo_started.induct) simp_all

lemma warned_append [simp]: "warned (l @ l') = warned l @ warned l'"
  by (induction l rule: warned.induct) simp_all

text \<open>The schema after a run of the loop: the backward bodies of the units undone, in order.\<close>

lemma run_rollbacks_schema:
  "run_rollbacks env mp recs db = (r, l, db') \<Longrightarrow>
     \<exists>us. map Some us = map mp (undone l) \<and> backward_all us (schema db) = Inr (schema db')"
proof (induction recs arbitrary: db r l db')
  case Nil
  then have "map Some [] = map mp (undone l) \<and> backward_all [] (schema db) = Inr (schema db')"
    by simp
  then show ?case by blast
next
  case (Cons x recs)
  show ?case
  proof (cases "mp (ID x)")
    case None
    obtain r1 l1 d1 where rest: "run_rollbacks env mp recs db = (r1, l1, d1)"
      by (cases "run_rollbacks env mp recs db") auto
    with None Cons.prems have eq: "l = NotFound (ID x) # l1" "d1 = db'"
      by auto
    from Cons.IH [OF rest] eq show ?thesis by simp
  next
    case (Some u)
    show ?thesis
    proof (cases "rollback_tx env u (ID x) db")
      case (Inl e)
      with Some Cons.prems have "l = [RollingBack (ID x)]" "db' = db" by auto
      then have "map Some [] = map mp (undone l) \<and>
          backward_all [] (schema db) = Inr (schema db')"
        by simp
      then show ?thesis by blast
    next
      case (Inr d0)
      obtain r1 l1 d1 where rest: "run_rollbacks env mp recs d0 = (r1, l1, d1)"
        by (cases "run_rollbacks env mp recs d0") auto
      with Some Inr Cons.prems
      have eq: "l = RollingBack (ID x) # RollbackSuccessful (ID x) # l1" "d1 = db'"
        by auto
      from Inr obtain s where s: "mig_Rollback u (schema db) = Inr s" "schema d0 = s"
        by (auto simp: rollback_tx_Inr)
      from Cons.IH [OF rest] eq obtain us where
        us: "map Some us = map mp (undone l1)" "backward_all us (schema d0) = Inr (schema db')"
        by auto
      with s Some eq have "map Some (u # us) = map mp (undone l) \<and>
          backward_all (u # us) (schema db) = Inr (schema db')"
        by simp
      then show ?thesis by blast
    qed
  qed
qed

text \<open>The records whose unit is unknown change neither the result nor the store.\<close>

lemma run_rollbacks_filter:
  "run_rollbacks env mp recs db = (r, l, db') \<Longrightarrow>
     \<exists>l'. run_rollbacks env mp (filter (\<lambda>x. mp (ID x) \<noteq> None) recs) db = (r, l', db') \<and>
          undone l' = undone l \<and> undo_started l' = undo_started l"
proof (induction recs arbitrary: db r l db')
  case Nil
  then show ?case by simp
next
  case (Cons x recs)
  show ?case
  proof (cases "mp (ID x)")
    case None
    obtain r1 l1 d1 where rest: "run_rollbacks env mp recs db = (r1, l1, d1)"
      by (cases "run_rollbacks env mp recs db") auto
    with None Cons.prems have eq: "r1 = r" "l = NotFound (ID x) # l1" "d1 = db'"
      by auto
    from Cons.IH [OF rest] eq None show ?thesis by simp
  next
    case (Some u)
    show ?thesis
    proof (cases "rollback_tx env u (ID x) db")
      case (Inl e)
      with Some Cons.prems show ?thesis by auto
    next
      case (Inr d0)
      obtain r1 l1 d1 where rest: "run_rollbacks env mp recs d0 = (r1, l1, d1)"
        by (cases "run_rollbacks env mp recs d0") auto
      with Some Inr Cons.prems
      have eq: "r1 = r" "l = RollingBack (ID x) # RollbackSuccessful (ID x) # l1" "d1 = db'"
        by auto
      from Cons.IH [OF rest] eq obtain l' where
        "run_rollbacks env mp (filter (\<lambda>x. mp (ID x) \<noteq> None) recs) d0 = (r, l', db')"
        "undone l' = undone l1" "undo_started l' = undo_started l1"
        by auto
      with Some Inr eq show ?thesis by simp
    qed
  qed
qed

lemma run_rollbacks_log:
  assumes "run_rollbacks env mp recs db = (r, l, db')"
  shows "prefix (undo_started l) (map ID (filter (\<lambda>x. mp (ID x) \<noteq> None) recs)) \<and>
         prefix (warned l) (map ID (filter (\<lambda>x. mp (ID x) = None) recs)) \<and>
         prefix (undone l) (undo_started l) \<and>
         (r = None \<longleftrightarrow> undone l = map ID (filter (\<lambda>x. mp (ID x) \<noteq> None) recs))"
proof (cases r)
  case None
  with assms run_rollbacks_None [of env mp recs db l db'] show ?thesis by simp
next
  case (Some e)
  with assms run_rollbacks_Some [of env mp recs db e l db']
  obtain pre rec post m l0 where
    dec: "recs = pre @ rec # post" "run_rollbacks env mp pre db = (None, l0, db')"
      "mp (ID rec) = Some m" "l = l0 @ [RollingBack (ID rec)]"
    by auto
  note handled = run_rollbacks_None [OF dec(2)]
  from handled dec have "length (undone l) <
      length (map ID (filter (\<lambda>x. mp (ID x) \<noteq> None) recs))"
    by simp
  then have "undone l \<noteq> map ID (filter (\<lambda>x. mp (ID x) \<noteq> None) recs)"
    by auto
  with handled dec Some show ?thesis by (simp add: prefix_def)
qed

lemma set_Order_applied_at_DESC: "set (Order_applied_at_DESC rows) = set rows"
  by (simp add: Order_applied_at_DESC_def)

subsection \<open>Claims on the argument of \<open>Rollback\<close> and on the record table\<close>

text \<open>
  C10. \<open>Rollback\<close> never creates the record table: on a store where the table is absent it
  returns the error of the read (wrapped as "failed to get applied migrations"), logs
  nothing and leaves the store as it was, table still absent, for every \<open>n\<close> and every
  registry. \<open>Migrate\<close> on the same store leaves the table present whenever its
  \<open>AutoMigrate\<close> call succeeds.
\<close>

theorem Rollback_absent_table:
  assumes "migration_records db = None"
  shows "Rollback env migrations n db =
           (Some (FailedGetApplied (if faults env OpFind db then StoreFault else NoTable)), [], db)
         \<and> (\<not> faults env OpAutoMigrate db \<longrightarrow>
              migration_records (snd (snd (Migrate env migrations db))) \<noteq> None)"
proof -
  have "migration_records (snd (snd (Migrate env migrations db))) \<noteq> None"
    if "\<not> faults env OpAutoMigrate db"
    using that assms run_pending_table [of "db\<lparr>migration_records := Some []\<rparr>" env]
    by (auto simp: Migrate_def AutoMigrate_def Find_def split: sum.splits)
  moreover have "Rollback env migrations n db =
      (Some (FailedGetApplied (if faults env OpFind db then StoreFault else NoTable)), [], db)"
    using assms by (simp add: Rollback_def Find_recent_def Find_def)
  ultimately show ?thesis by blast
qed

theorem Rollback_absent_table_witness:
  "Rollback quiet RegisterMigrations 1 fresh = (Some (FailedGetApplied NoTable), [], fresh)
   \<and> migration_records (snd (snd (Migrate quiet RegisterMigrations fresh))) \<noteq> None"
  using Rollback_absent_table [of fresh quiet RegisterMigrations 1]
  by (simp add: fresh_def quiet_def)


text \<open>
  C9. \<open>Rollback\<close> does not validate \<open>n\<close>. On a store whose record table can be read,
  \<open>Rollback(0)\<close> returns \<open>nil\<close>, logs nothing and leaves the store unchanged; for every
  negative \<open>n\<close> the loop runs over all the rows of the table, newest first, and when it
  returns \<open>nil\<close> with every recorded id known to the registry, every row has been undone
  and the table is empty.
\<close>

theorem Rollback_unvalidated_n:
  assumes "migration_records db = Some rows" and "\<not> faults env OpFind db"
  shows "Rollback env migrations 0 db = (None, [], db)
         \<and> (n < 0 \<longrightarrow>
              Rollback env migrations n db =
                run_rollbacks env (migrationsMap migrations) (Order_applied_at_DESC rows) db)
         \<and> (n < 0 \<longrightarrow> Rollback env migrations n db = (None, l, db') \<longrightarrow>
              set (map ID rows) \<subseteq> set (map mig_ID migrations) \<longrightarrow>
              undone l = map ID (Order_applied_at_DESC rows) \<and> migration_records db' = Some [])"
proof -
  have zero: "Rollback env migrations 0 db = (None, [], db)"
    using assms by (simp add: Rollback_def Find_recent_def Find_def Limit_def)
  have neg: "Rollback env migrations n db =
      run_rollbacks env (migrationsMap migrations) (Order_applied_at_DESC rows) db" if "n < 0"
    using assms that by (simp add: Rollback_def Find_recent_def Find_def Limit_def)
  have all: "undone l = map ID (Order_applied_at_DESC rows) \<and> migration_records db' = Some []"
    if "n < 0" and ok: "Rollback env migrations n db = (None, l, db')"
      and known: "set (map ID rows) \<subseteq> set (map mig_ID migrations)"
  proof -
    let ?mp = "migrationsMap migrations"
    from neg [OF \<open>n < 0\<close>] ok
    have run: "run_rollbacks env ?mp (Order_applied_at_DESC rows) db = (None, l, db')"
      by simp
    from known have "\<forall>x \<in> set (Order_applied_at_DESC rows). ?mp (ID x) \<noteq> None"
      by (auto simp: migrationsMap_None set_Order_applied_at_DESC)
    then have "filter (\<lambda>x. ?mp (ID x) \<noteq> None) (Order_applied_at_DESC rows) =
        Order_applied_at_DESC rows"
      by (simp add: filter_id_conv)
    with run_rollbacks_None [OF run]
    have und: "undone l = map ID (Order_applied_at_DESC rows)"
      by simp
    then have "set (undone l) = ID ` set rows"
      by (simp add: set_Order_applied_at_DESC)
    then have "filter (\<lambda>x. ID x \<notin> set (undone l)) rows = []"
      by (simp add: filter_empty_conv)
    with run_rollbacks_records [OF run assms(1)] und show ?thesis
      by simp
  qed
  from zero neg all show ?thesis by blast
qed

theorem Rollback_unvalidated_n_witness:
  "Rollback quiet RegisterMigrations 0 migrated = (None, [], migrated)
   \<and> Rollback quiet RegisterMigrations (- 1) migrated =
       (None,
        [RollingBack ''004_create_shares_table'', RollbackSuccessful ''004_create_shares_table'',
         RollingBack ''003_create_files_table'', RollbackSuccessful ''003_create_files_table'',
         RollingBack ''002_create_folders_table'', RollbackSuccessful ''002_create_folders_table'',
         RollingBack ''001_create_users_table'', RollbackSuccessful ''001_create_users_table''],
        \<lparr>schema = [], migration_records = Some [], tick = 4\<rparr>)"
proof -
  have run: "Rollback quiet RegisterMigrations (- 1) migrated =
       (None,
        [RollingBack ''004_create_shares_table'', RollbackSuccessful ''004_create_shares_table'',
         RollingBack ''003_create_files_table'', RollbackSuccessful ''003_create_files_table'',
         RollingBack ''002_create_folders_table'', RollbackSuccessful ''002_create_folders_table'',
         RollingBack ''001_create_users_table'', RollbackSuccessful ''001_create_users_table''],
        \<lparr>schema = [], migration_records = Some [], tick = 4\<rparr>)"
    by (simp add: eval_defs)
  have rows: "migration_records migrated = Some
        [\<lparr>ID = ''001_create_users_table'', AppliedAt = 0\<rparr>,
         \<lparr>ID = ''002_create_folders_table'', AppliedAt = 1\<rparr>,
         \<lparr>ID = ''003_create_files_table'', AppliedAt = 2\<rparr>,
         \<lparr>ID = ''004_create_shares_table'', AppliedAt = 3\<rparr>]"
    by (simp add: migrated_def)
  have quiet: "\<not> faults quiet OpFind migrated"
    by (simp add: quiet_def)
  from Rollback_unvalidated_n [OF rows quiet, of RegisterMigrations "- 1"] run
  show ?thesis by simp
qed


lemma Find_recent_Inr:
  "Find_recent env n db = Inr sel \<Longrightarrow>
     \<not> faults env OpFind db \<and> migration_records db = Some (rows_of db) \<and>
     sel = Limit n (Order_applied_at_DESC (rows_of db))"
  by (auto simp: Find_recent_def Find_def rows_of_def split: sum.splits option.splits if_splits)

text \<open>
  C8. \<open>Rollback\<close> aborts on the first failure. Let \<open>rec\<close> be one of the selected records,
  \<open>pre\<close> those before it and \<open>post\<close> those after it, let the loop handle \<open>pre\<close> without
  error, leaving the store \<open>d\<close>, let the unit of \<open>rec\<close> be known, and let then its backward
  body, the delete of its record or the commit fail, with cause \<open>c\<close>. Then \<open>Rollback\<close>
  returns the error "rollback of rec failed", "failed to remove migration record rec" or
  "failed to commit rollback of rec", which carries the id of \<open>rec\<close>; the log ends with the
  start of \<open>rec\<close>, so no record of \<open>post\<close> is attempted; and the store is \<open>d\<close>, the store
  before the transaction of \<open>rec\<close> began, in which the units of \<open>pre\<close> that were undone
  stay undone: their rows are gone and no other row is.
\<close>

theorem Rollback_aborts_on_failure:
  assumes sel: "Find_recent env n db = Inr (pre @ rec # post)"
    and before: "run_rollbacks env (migrationsMap migrations) pre db = (None, l0, d)"
    and known: "migrationsMap migrations (ID rec) = Some m"
    and opens: "\<not> faults env OpBegin d"
    and fails: "mig_Rollback m (schema d) = Inl c \<or>
                (\<exists>s. mig_Rollback m (schema d) = Inr s \<and>
                   (Delete env (d\<lparr>schema := s\<rparr>) (ID rec) = Inl c \<or>
                    (\<exists>tx. Delete env (d\<lparr>schema := s\<rparr>) (ID rec) = Inr tx \<and>
                          Commit env tx = Inl c)))"
  shows "(\<exists>e. Rollback env migrations n db = (Some e, l0 @ [RollingBack (ID rec)], d) \<and>
              annotated_id e = Some (ID rec) \<and>
              (e = RollbackFailed (ID rec) c \<or> e = FailedRemoveRecord (ID rec) c \<or>
               e = FailedCommitRollback (ID rec) c))
         \<and> undone l0 = map ID (filter (\<lambda>x. migrationsMap migrations (ID x) \<noteq> None) pre)
         \<and> rows_of d = filter (\<lambda>x. ID x \<notin> set (undone l0)) (rows_of db)"
proof -
  let ?mp = "migrationsMap migrations"
  from fails opens obtain e where
    tx: "rollback_tx env m (ID rec) d = Inl e" and
    e: "e = RollbackFailed (ID rec) c \<or> e = FailedRemoveRecord (ID rec) c \<or>
        e = FailedCommitRollback (ID rec) c"
    by (auto simp: rollback_tx_def Begin_def run_body_def)
  from tx known have "run_rollbacks env ?mp (rec # post) d = (Some e, [RollingBack (ID rec)], d)"
    by simp
  with before have "run_rollbacks env ?mp (pre @ rec # post) db =
      (Some e, l0 @ [RollingBack (ID rec)], d)"
    by (simp add: run_rollbacks_append)
  with sel have run: "Rollback env migrations n db = (Some e, l0 @ [RollingBack (ID rec)], d)"
    by (simp add: Rollback_def)
  from e have ann: "annotated_id e = Some (ID rec)" by auto
  from run_rollbacks_None [OF before]
  have und: "undone l0 = map ID (filter (\<lambda>x. ?mp (ID x) \<noteq> None) pre)"
    by simp
  from Find_recent_Inr [OF sel] have "migration_records db = Some (rows_of db)" by simp
  from run_rollbacks_records [OF before this]
  have "rows_of d = filter (\<lambda>x. ID x \<notin> set (undone l0)) (rows_of db)"
    by (simp add: rows_of_def)
  with run ann e und show ?thesis by blast
qed

theorem Rollback_aborts_on_failure_witness:
  "Rollback quiet broken_registry 3 broken_applied =
     (Some (RollbackFailed ''002_broken'' (UnitError ''boom'')),
      [RollingBack ''003_create_files_table'', RollbackSuccessful ''003_create_files_table'',
       RollingBack ''002_broken''],
      broken_left)
   \<and> rows_of broken_left =
       filter (\<lambda>x. ID x \<notin> set [''003_create_files_table'']) (rows_of broken_applied)"
proof -
  let ?r3 = "\<lparr>ID = ''003_create_files_table'', AppliedAt = 2\<rparr>"
  let ?r2 = "\<lparr>ID = ''002_broken'', AppliedAt = 1\<rparr>"
  let ?r1 = "\<lparr>ID = ''001_create_users_table'', AppliedAt = 0\<rparr>"
  have sel: "Find_recent quiet 3 broken_applied = Inr ([?r3] @ ?r2 # [?r1])"
    by (simp add: eval_defs broken_defs)
  have before: "run_rollbacks quiet (migrationsMap broken_registry) [?r3] broken_applied =
      (None,
       [RollingBack ''003_create_files_table'', RollbackSuccessful ''003_create_files_table''],
       broken_left)"
    by (simp add: eval_defs broken_defs)
  have known: "migrationsMap broken_registry (ID ?r2) = Some Broken"
    by (simp add: eval_defs broken_defs)
  have opens: "\<not> faults quiet OpBegin broken_left"
    by (simp add: quiet_def)
  have fails: "mig_Rollback Broken (schema broken_left) = Inl (UnitError ''boom'') \<or>
      (\<exists>s. mig_Rollback Broken (schema broken_left) = Inr s \<and>
         (Delete quiet (broken_left\<lparr>schema := s\<rparr>) (ID ?r2) = Inl (UnitError ''boom'') \<or>
          (\<exists>tx. Delete quiet (broken_left\<lparr>schema := s\<rparr>) (ID ?r2) = Inr tx \<and>
                Commit quiet tx = Inl (UnitError ''boom''))))"
    by (simp add: Broken_def)
  have run: "Rollback quiet broken_registry 3 broken_applied =
     (Some (RollbackFailed ''002_broken'' (UnitError ''boom'')),
      [RollingBack ''003_create_files_table'', RollbackSuccessful ''003_create_files_table'',
       RollingBack ''002_broken''],
      broken_left)"
    by (simp add: eval_defs broken_defs)
  from Rollback_aborts_on_failure [OF sel before known opens fails]
  have "rows_of broken_left =
      filter (\<lambda>x. ID x \<notin> set (undone
        [RollingBack ''003_create_files_table'', RollbackSuccessful ''003_create_files_table'']))
        (rows_of broken_applied)"
    by blast
  with run show ?thesis by simp
qed

text \<open>
  C7. A selected record whose id no unit of the registry carries is skipped, and that alone
  never makes \<open>Rollback\<close> fail. Let \<open>rec\<close> be a selected record of an id unknown to the
  registry, \<open>pre\<close> the selected records before it and \<open>post\<close> those after it, and let
  the loop handle \<open>pre\<close> without error, leaving the store \<open>d\<close>. Then \<open>Rollback\<close> logs
  the warning "Migration not found, skipping rollback" for \<open>rec\<close> and goes on with
  \<open>post\<close> from the same store \<open>d\<close>: its result and the store it leaves are those of the
  loop on \<open>post\<close>, and the same as if \<open>rec\<close> had not been selected at all. Every row of
  an id unknown to the registry, that of \<open>rec\<close> included, is in the table afterwards as it
  was. \<open>Rollback\<close> returns \<open>nil\<close> exactly when every selected record whose unit is
  known was undone, and then it has logged a warning for every selected record whose unit
  is unknown.
\<close>

theorem Rollback_skips_unknown:
  assumes sel: "Find_recent env n db = Inr (pre @ rec # post)"
    and unknown: "ID rec \<notin> set (map mig_ID migrations)"
    and before: "run_rollbacks env (migrationsMap migrations) pre db = (None, l0, d)"
    and after: "run_rollbacks env (migrationsMap migrations) post d = (r, l1, db')"
  shows "Rollback env migrations n db = (r, l0 @ NotFound (ID rec) # l1, db')
         \<and> run_rollbacks env (migrationsMap migrations) (pre @ post) db = (r, l0 @ l1, db')
         \<and> (\<forall>x \<in> set (rows_of db). ID x \<notin> set (map mig_ID migrations) \<longrightarrow>
              x \<in> set (rows_of db'))
         \<and> (r = None \<longleftrightarrow>
              undone (l0 @ NotFound (ID rec) # l1) =
                map ID (filter (\<lambda>x. ID x \<in> set (map mig_ID migrations)) (pre @ rec # post)))
         \<and> (r = None \<longrightarrow>
              warned (l0 @ NotFound (ID rec) # l1) =
                map ID (filter (\<lambda>x. ID x \<notin> set (map mig_ID migrations)) (pre @ rec # post)))"
proof -
  let ?mp = "migrationsMap migrations"
  let ?l = "l0 @ NotFound (ID rec) # l1"
  have known: "(\<lambda>x. ?mp (ID x) \<noteq> None) = (\<lambda>x. ID x \<in> set (map mig_ID migrations))"
    and unknown': "(\<lambda>x. ?mp (ID x) = None) = (\<lambda>x. ID x \<notin> set (map mig_ID migrations))"
    by (simp_all add: migrationsMap_None fun_eq_iff)
  from unknown have "?mp (ID rec) = None" by (simp add: migrationsMap_None)
  with after have "run_rollbacks env ?mp (rec # post) d = (r, NotFound (ID rec) # l1, db')"
    by simp
  with before have loop: "run_rollbacks env ?mp (pre @ rec # post) db = (r, ?l, db')"
    by (simp add: run_rollbacks_append)
  with sel have a: "Rollback env migrations n db = (r, ?l, db')"
    by (simp add: Rollback_def)
  from before after have b: "run_rollbacks env ?mp (pre @ post) db = (r, l0 @ l1, db')"
    by (simp add: run_rollbacks_append)
  note log = run_rollbacks_log [OF loop, unfolded known unknown']
  have "set (map ID (filter (\<lambda>x. ID x \<in> set (map mig_ID migrations)) xs)) \<subseteq>
      set (map mig_ID migrations)" for xs :: "MigrationRecord list"
    by auto
  moreover from log have "set (undone ?l) \<subseteq>
      set (map ID (filter (\<lambda>x. ID x \<in> set (map mig_ID migrations)) (pre @ rec # post)))"
    by (blast dest: set_mono_prefix)
  ultimately have und: "set (undone ?l) \<subseteq> set (map mig_ID migrations)"
    by (blast intro: subset_trans)
  from Find_recent_Inr [OF sel] have "migration_records db = Some (rows_of db)" by simp
  from run_rollbacks_records [OF loop this]
  have "rows_of db' = filter (\<lambda>x. ID x \<notin> set (undone ?l)) (rows_of db)"
    by (simp add: rows_of_def)
  with und have c: "\<forall>x \<in> set (rows_of db). ID x \<notin> set (map mig_ID migrations) \<longrightarrow>
      x \<in> set (rows_of db')"
    by auto
  from log have e: "r = None \<longleftrightarrow> undone ?l =
      map ID (filter (\<lambda>x. ID x \<in> set (map mig_ID migrations)) (pre @ rec # post))"
    by blast
  from run_rollbacks_None [of env ?mp "pre @ rec # post" db ?l db'] loop
  have f: "r = None \<longrightarrow> warned ?l =
      map ID (filter (\<lambda>x. ID x \<notin> set (map mig_ID migrations)) (pre @ rec # post))"
    by (auto simp: unknown')
  from a b c e f show ?thesis by blast
qed

theorem Rollback_skips_unknown_witness:
  "Rollback quiet RegisterMigrations 2 skewed =
     (None,
      [NotFound ''005_removed'',
       RollingBack ''004_create_shares_table'', RollbackSuccessful ''004_create_shares_table''],
      \<lparr>schema = [''users'', ''folders'', ''files'', ''extra''],
       migration_records = Some
         [\<lparr>ID = ''001_create_users_table'', AppliedAt = 0\<rparr>,
          \<lparr>ID = ''002_create_folders_table'', AppliedAt = 1\<rparr>,
          \<lparr>ID = ''003_create_files_table'', AppliedAt = 2\<rparr>,
          \<lparr>ID = ''005_removed'', AppliedAt = 4\<rparr>],
       tick = 5\<rparr>)
   \<and> Rollback quiet RegisterMigrations 1 skewed = (None, [NotFound ''005_removed''], skewed)"
proof -
  let ?r5 = "\<lparr>ID = ''005_removed'', AppliedAt = 4\<rparr>"
  let ?r4 = "\<lparr>ID = ''004_create_shares_table'', AppliedAt = 3\<rparr>"
  let ?left = "\<lparr>schema = [''users'', ''folders'', ''files'', ''extra''],
       migration_records = Some
         [\<lparr>ID = ''001_create_users_table'', AppliedAt = 0\<rparr>,
          \<lparr>ID = ''002_create_folders_table'', AppliedAt = 1\<rparr>,
          \<lparr>ID = ''003_create_files_table'', AppliedAt = 2\<rparr>,
          \<lparr>ID = ''005_removed'', AppliedAt = 4\<rparr>],
       tick = 5\<rparr>"
  have unknown: "ID ?r5 \<notin> set (map mig_ID RegisterMigrations)"
    by (simp add: eval_defs skewed_def)
  have before: "run_rollbacks quiet (migrationsMap RegisterMigrations) [] skewed =
      (None, [], skewed)"
    by simp
  have sel2: "Find_recent quiet 2 skewed = Inr ([] @ ?r5 # [?r4])"
    by (simp add: eval_defs skewed_def)
  have after2: "run_rollbacks quiet (migrationsMap RegisterMigrations) [?r4] skewed =
      (None,
       [RollingBack ''004_create_shares_table'', RollbackSuccessful ''004_create_shares_table''],
       ?left)"
    by (simp add: eval_defs skewed_def)
  have sel1: "Find_recent quiet 1 skewed = Inr ([] @ ?r5 # [])"
    by (simp add: eval_defs skewed_def)
  have after1: "run_rollbacks quiet (migrationsMap RegisterMigrations) [] skewed =
      (None, [], skewed)"
    by simp
  from Rollback_skips_unknown [OF sel2 unknown before after2]
    Rollback_skips_unknown [OF sel1 unknown before after1]
  show ?thesis by simp
qed

subsection \<open>Atomic bookkeeping\<close>

text \<open>
  The two ways a transaction of \<open>Migrate\<close> ends: committed, with the schema changed by
  the forward body and the record appended, or failed with the store as it was (the loop
  returns the store it had before \<open>Begin\<close>). Likewise for \<open>Rollback\<close>.
\<close>

lemma run_pending_schema:
  assumes "run_pending env ap ms db = (r, l, db')"
  shows "\<exists>us. map mig_ID us = committed l \<and> subseq us ms \<and>
              forward_all us (schema db) = Inr (schema db')"
proof (cases r)
  case None
  with assms run_pending_None [of env ap ms db l db']
  have "map mig_ID (pending ap ms) = committed l \<and> subseq (pending ap ms) ms \<and>
      forward_all (pending ap ms) (schema db) = Inr (schema db')"
    by (simp add: pending_def)
  then show ?thesis by blast
next
  case (Some e)
  with assms run_pending_Some [of env ap ms db e l db']
  obtain pre u post l0 where
    dec: "pending ap ms = pre @ u # post" "run_pending env ap pre db = (None, l0, db')"
      "l = l0 @ [Running (mig_ID u)]"
    by auto
  from run_pending_None [OF dec(2)] pending_prefix [OF dec(1)]
  have l0: "l0 = success_log (map mig_ID pre)" "forward_all pre (schema db) = Inr (schema db')"
    by simp_all
  have "subseq pre (pending ap ms)"
    unfolding dec(1) by (rule prefix_imp_subseq) simp
  moreover have "subseq (pending ap ms) ms"
    by (simp add: pending_def)
  ultimately have "subseq pre ms"
    by (rule subseq_order.trans)
  with l0 dec(3) have "map mig_ID pre = committed l \<and> subseq pre ms \<and>
      forward_all pre (schema db) = Inr (schema db')"
    by simp
  then show ?thesis by blast
qed

lemma migrationsMap_units:
  "map Some us = map (migrationsMap ms) ids \<Longrightarrow> map mig_ID us = ids \<and> set us \<subseteq> set ms"
proof (induction us arbitrary: ids)
  case Nil
  then show ?case by simp
next
  case (Cons u us)
  then obtain i rest where ids: "ids = i # rest" by (cases ids) auto
  with Cons.prems have "migrationsMap ms i = Some u" "map Some us = map (migrationsMap ms) rest"
    by simp_all
  with Cons.IH [of rest] migrationsMap_Some [of ms i u] ids show ?case by simp
qed

text \<open>
  C4. The record bookkeeping is atomic with the schema change. After \<open>Migrate\<close>, whatever it
  returns, there are units \<open>us\<close> of the registry, in registration order, that are exactly
  the units logged as successful, such that the schema is the old schema after their
  forward bodies and the record table is the old rows followed by one new row for each of
  them: each committed unit has left both its schema change and its record, and a failed
  one neither. After \<open>Rollback\<close>, whatever it returns, there are units \<open>us\<close> of the registry
  that are exactly the units logged as rolled back, such that the schema is the old schema
  after their backward bodies and the record table is the old rows without the rows of
  their ids. The old rows are never changed in place: they are kept as they are or removed.
\<close>

theorem record_bookkeeping_atomic:
  "(Migrate env migrations db = (r, l, db') \<longrightarrow>
      (\<exists>us. map mig_ID us = committed l \<and> subseq us migrations \<and>
            forward_all us (schema db) = Inr (schema db') \<and>
            rows_of db' = rows_of db @ stamped env (tick db) (map mig_ID us)))
   \<and> (Rollback env migrations n dbr = (rr, lr, dbr') \<longrightarrow>
      (\<exists>us. map mig_ID us = undone lr \<and> set us \<subseteq> set migrations \<and>
            backward_all us (schema dbr) = Inr (schema dbr') \<and>
            rows_of dbr' = filter (\<lambda>x. ID x \<notin> set (map mig_ID us)) (rows_of dbr)))"
proof (intro conjI impI)
  assume run: "Migrate env migrations db = (r, l, db')"
  have trivial: "\<exists>us. map mig_ID us = committed [] \<and> subseq us migrations \<and>
      forward_all us (schema db) = Inr (schema d) \<and>
      rows_of d = rows_of db @ stamped env (tick db) (map mig_ID us)"
    if "schema d = schema db" "rows_of d = rows_of db" for d
  proof -
    from that have "map mig_ID [] = committed [] \<and> subseq [] migrations \<and>
      forward_all [] (schema db) = Inr (schema d) \<and>
      rows_of d = rows_of db @ stamped env (tick db) (map mig_ID [])"
      by simp
    then show ?thesis by blast
  qed
  show "\<exists>us. map mig_ID us = committed l \<and> subseq us migrations \<and>
      forward_all us (schema db) = Inr (schema db') \<and>
      rows_of db' = rows_of db @ stamped env (tick db) (map mig_ID us)"
  proof (cases "AutoMigrate env db")
    case (Inl c)
    with run have "l = []" "db' = db" by (auto simp: Migrate_def)
    with trivial [of db] show ?thesis by simp
  next
    case (Inr db1)
    note auto_ok = this
    note db1 = AutoMigrate_Inr [OF auto_ok]
    show ?thesis
    proof (cases "Find env db1")
      case (Inl c)
      with auto_ok run have "l = []" "db' = db1" by (auto simp: Migrate_def)
      with trivial [of db1] db1 show ?thesis by simp
    next
      case (Inr rows)
      with auto_ok run
      have loop: "run_pending env (appliedMap rows) migrations db1 = (r, l, db')"
        by (simp add: Migrate_def)
      from run_pending_schema [OF loop] db1 obtain us where
        us: "map mig_ID us = committed l" "subseq us migrations"
          "forward_all us (schema db) = Inr (schema db')"
        by auto
      from db1 have "migration_records db1 = Some (rows_of db)" by simp
      from run_pending_records [OF loop this] db1 us(1)
      have "rows_of db' = rows_of db @ stamped env (tick db) (map mig_ID us)"
        by (simp add: rows_of_def)
      with us show ?thesis by blast
    qed
  qed
next
  assume run: "Rollback env migrations n dbr = (rr, lr, dbr')"
  show "\<exists>us. map mig_ID us = undone lr \<and> set us \<subseteq> set migrations \<and>
      backward_all us (schema dbr) = Inr (schema dbr') \<and>
      rows_of dbr' = filter (\<lambda>x. ID x \<notin> set (map mig_ID us)) (rows_of dbr)"
  proof (cases "Find_recent env n dbr")
    case (Inl c)
    with run have "lr = []" "dbr' = dbr" by (auto simp: Rollback_def)
    then have "map mig_ID [] = undone lr \<and> set [] \<subseteq> set migrations \<and>
      backward_all [] (schema dbr) = Inr (schema dbr') \<and>
      rows_of dbr' = filter (\<lambda>x. ID x \<notin> set (map mig_ID [])) (rows_of dbr)"
      by simp
    then show ?thesis by blast
  next
    case (Inr sel)
    with run have loop: "run_rollbacks env (migrationsMap migrations) sel dbr = (rr, lr, dbr')"
      by (simp add: Rollback_def)
    from run_rollbacks_schema [OF loop] obtain us where
      us: "map Some us = map (migrationsMap migrations) (undone lr)"
        "backward_all us (schema dbr) = Inr (schema dbr')"
      by auto
    note ids = migrationsMap_units [OF us(1)]
    from Find_recent_Inr [OF Inr] have "migration_records dbr = Some (rows_of dbr)" by simp
    from run_rollbacks_records [OF loop this] ids
    have "rows_of dbr' = filter (\<lambda>x. ID x \<notin> set (map mig_ID us)) (rows_of dbr)"
      by (simp add: rows_of_def)
    with us(2) ids show ?thesis by blast
  qed
qed

theorem record_bookkeeping_atomic_witness:
  "(\<exists>us. map mig_ID us = [''001_create_users_table''] \<and> subseq us broken_registry \<and>
         forward_all us (schema fresh) = Inr (schema users_only) \<and>
         rows_of users_only = rows_of fresh @ stamped quiet (tick fresh) (map mig_ID us))
   \<and> (\<exists>us. map mig_ID us = [''003_create_files_table''] \<and> set us \<subseteq> set broken_registry \<and>
         backward_all us (schema broken_applied) = Inr (schema broken_left) \<and>
         rows_of broken_left =
           filter (\<lambda>x. ID x \<notin> set (map mig_ID us)) (rows_of broken_applied))"
proof -
  have m: "Migrate quiet broken_registry fresh =
     (Some (MigrationFailed ''002_broken'' (UnitError ''boom'')),
      [Running ''001_create_users_table'', Successful ''001_create_users_table'',
       Running ''002_broken''],
      users_only)"
    by (simp add: eval_defs broken_defs)
  have r: "Rollback quiet broken_registry 3 broken_applied =
     (Some (RollbackFailed ''002_broken'' (UnitError ''boom'')),
      [RollingBack ''003_create_files_table'', RollbackSuccessful ''003_create_files_table'',
       RollingBack ''002_broken''],
      broken_left)"
    by (simp add: eval_defs broken_defs)
  from record_bookkeeping_atomic [of quiet broken_registry fresh
      "Some (MigrationFailed ''002_broken'' (UnitError ''boom''))"
      "[Running ''001_create_users_table'', Successful ''001_create_users_table'',
        Running ''002_broken'']"
      users_only 3 broken_applied
      "Some (RollbackFailed ''002_broken'' (UnitError ''boom''))"
      "[RollingBack ''003_create_files_table'', RollbackSuccessful ''003_create_files_table'',
        RollingBack ''002_broken'']"
      broken_left] m r
  show ?thesis by simp
qed


subsection \<open>The records \<open>Rollback\<close> selects\<close>

lemma Limit_take: "Limit n ys = take (if n < 0 then length ys else nat n) ys"
  by (simp add: Limit_def)

lemma Order_sorted:
  assumes "distinct (map AppliedAt rows)"
  shows "sorted_wrt (\<lambda>a b. AppliedAt b < AppliedAt a) (Order_applied_at_DESC rows)"
proof -
  let ?xs = "sort_key AppliedAt rows"
  from assms have "distinct (map AppliedAt ?xs)"
    by (simp add: distinct_map)
  moreover have "sorted (map AppliedAt ?xs)" by simp
  ultimately have "sorted_wrt (<) (map AppliedAt ?xs)"
    by (simp add: strict_sorted_iff)
  then show ?thesis
    by (simp add: Order_applied_at_DESC_def sorted_wrt_rev sorted_wrt_map)
qed

lemma selection_newest:
  assumes "distinct (map AppliedAt rows)" and "sel = Limit n (Order_applied_at_DESC rows)"
  shows "length sel = (if n < 0 then length rows else min (nat n) (length rows))"
    and "set sel \<subseteq> set rows" and "distinct sel"
    and "sorted_wrt (\<lambda>a b. AppliedAt b < AppliedAt a) sel"
    and "\<forall>x \<in> set sel. \<forall>y \<in> set rows - set sel. AppliedAt y < AppliedAt x"
proof -
  let ?ys = "Order_applied_at_DESC rows"
  let ?k = "if n < 0 then length ?ys else nat n"
  have sel: "sel = take ?k ?ys" using assms(2) by (simp add: Limit_take)
  have len: "length ?ys = length rows" by (simp add: Order_applied_at_DESC_def)
  show "length sel = (if n < 0 then length rows else min (nat n) (length rows))"
    using sel len by (simp add: min_def)
  show "set sel \<subseteq> set rows"
    using sel set_take_subset [of ?k ?ys] by (simp add: set_Order_applied_at_DESC)
  from assms(1) have "distinct rows" by (simp add: distinct_map)
  then have "distinct ?ys" by (simp add: Order_applied_at_DESC_def)
  then show "distinct sel" using sel by simp
  note srt = Order_sorted [OF assms(1)]
  then show "sorted_wrt (\<lambda>a b. AppliedAt b < AppliedAt a) sel"
    using sel by (simp add: sorted_wrt_take)
  have "sorted_wrt (\<lambda>a b. AppliedAt b < AppliedAt a) (take ?k ?ys @ drop ?k ?ys)"
    using srt by simp
  then have "\<forall>x \<in> set (take ?k ?ys). \<forall>y \<in> set (drop ?k ?ys). AppliedAt y < AppliedAt x"
    by (simp only: sorted_wrt_append) blast
  moreover have "set rows = set (take ?k ?ys) \<union> set (drop ?k ?ys)"
    by (metis append_take_drop_id set_append set_Order_applied_at_DESC)
  ultimately show "\<forall>x \<in> set sel. \<forall>y \<in> set rows - set sel. AppliedAt y < AppliedAt x"
    using sel by blast
qed

text \<open>
  C5. \<open>Rollback(n)\<close> selects and undoes the most recently applied records, newest first,
  by \<open>applied_at\<close>. On a store whose rows have pairwise distinct \<open>applied_at\<close>, the
  selected records \<open>sel\<close> are \<open>n\<close> rows of the table (all of them if the table has fewer,
  or if \<open>n\<close> is negative), in strictly descending order of \<open>applied_at\<close>, and every row
  that is not selected is older than every selected one. The loop takes them in that
  order: the units started are a prefix of the selected records with a known unit, and
  when \<open>Rollback\<close> returns \<open>nil\<close> all of those have been undone, in that order; if
  moreover every selected id is known, exactly the selected records are gone from the
  table. Neither the id strings nor the registration order play a part.
\<close>

theorem Rollback_newest_first:
  assumes sel: "Find_recent env n db = Inr sel"
    and stamps: "distinct (map AppliedAt (rows_of db))"
    and run: "Rollback env migrations n db = (r, l, db')"
  shows "length sel = (if n < 0 then length (rows_of db) else min (nat n) (length (rows_of db)))
         \<and> set sel \<subseteq> set (rows_of db) \<and> distinct sel
         \<and> sorted_wrt (\<lambda>a b. AppliedAt b < AppliedAt a) sel
         \<and> (\<forall>x \<in> set sel. \<forall>y \<in> set (rows_of db) - set sel. AppliedAt y < AppliedAt x)
         \<and> prefix (undo_started l)
              (map ID (filter (\<lambda>x. ID x \<in> set (map mig_ID migrations)) sel))
         \<and> prefix (undone l) (undo_started l)
         \<and> (r = None \<longrightarrow>
              undone l = map ID (filter (\<lambda>x. ID x \<in> set (map mig_ID migrations)) sel))
         \<and> (r = None \<longrightarrow> set (map ID sel) \<subseteq> set (map mig_ID migrations) \<longrightarrow>
              undone l = map ID sel \<and>
              rows_of db' = filter (\<lambda>x. ID x \<notin> set (map ID sel)) (rows_of db))"
proof -
  let ?mp = "migrationsMap migrations"
  have known: "(\<lambda>x. ?mp (ID x) \<noteq> None) = (\<lambda>x. ID x \<in> set (map mig_ID migrations))"
    and unknown: "(\<lambda>x. ?mp (ID x) = None) = (\<lambda>x. ID x \<notin> set (map mig_ID migrations))"
    by (simp_all add: migrationsMap_None fun_eq_iff)
  note found = Find_recent_Inr [OF sel]
  from found have sel_eq: "sel = Limit n (Order_applied_at_DESC (rows_of db))" by simp
  note shape = selection_newest [OF stamps sel_eq]
  from sel run have loop: "run_rollbacks env ?mp sel db = (r, l, db')"
    by (simp add: Rollback_def)
  note log = run_rollbacks_log [OF loop, unfolded known unknown]
  from found have "migration_records db = Some (rows_of db)" by simp
  from run_rollbacks_records [OF loop this]
  have rows: "rows_of db' = filter (\<lambda>x. ID x \<notin> set (undone l)) (rows_of db)"
    by (simp add: rows_of_def)
  have "undone l = map ID sel \<and>
      rows_of db' = filter (\<lambda>x. ID x \<notin> set (map ID sel)) (rows_of db)"
    if "r = None" and all: "set (map ID sel) \<subseteq> set (map mig_ID migrations)"
  proof -
    from all have "filter (\<lambda>x. ID x \<in> set (map mig_ID migrations)) sel = sel"
      by (auto simp: filter_id_conv)
    with log \<open>r = None\<close> have "undone l = map ID sel" by simp
    with rows show ?thesis by simp
  qed
  with shape log show ?thesis by blast
qed

theorem Rollback_newest_first_witness:
  "Rollback quiet unordered_registry 2 unordered_applied =
     (None,
      [RollingBack ''002_create_folders_table'', RollbackSuccessful ''002_create_folders_table'',
       RollingBack ''001_create_users_table'', RollbackSuccessful ''001_create_users_table''],
      \<lparr>schema = [''files''],
       migration_records = Some [\<lparr>ID = ''003_create_files_table'', AppliedAt = 0\<rparr>],
       tick = 3\<rparr>)
   \<and> sorted_wrt (\<lambda>a b. AppliedAt b < AppliedAt a)
        [\<lparr>ID = ''002_create_folders_table'', AppliedAt = 2\<rparr>,
         \<lparr>ID = ''001_create_users_table'', AppliedAt = 1\<rparr>]"
proof -
  have sel: "Find_recent quiet 2 unordered_applied =
      Inr [\<lparr>ID = ''002_create_folders_table'', AppliedAt = 2\<rparr>,
           \<lparr>ID = ''001_create_users_table'', AppliedAt = 1\<rparr>]"
    by (simp add: eval_defs unordered_registry_def unordered_applied_def)
  have stamps: "distinct (map AppliedAt (rows_of unordered_applied))"
    by (simp add: rows_of_def unordered_applied_def)
  have run: "Rollback quiet unordered_registry 2 unordered_applied =
     (None,
      [RollingBack ''002_create_folders_table'', RollbackSuccessful ''002_create_folders_table'',
       RollingBack ''001_create_users_table'', RollbackSuccessful ''001_create_users_table''],
      \<lparr>schema = [''files''],
       migration_records = Some [\<lparr>ID = ''003_create_files_table'', AppliedAt = 0\<rparr>],
       tick = 3\<rparr>)"
    by (simp add: eval_defs unordered_registry_def unordered_applied_def)
  from Rollback_newest_first [OF sel stamps run]
  have "sorted_wrt (\<lambda>a b. AppliedAt b < AppliedAt a)
        [\<lparr>ID = ''002_create_folders_table'', AppliedAt = 2\<rparr>,
         \<lparr>ID = ''001_create_users_table'', AppliedAt = 1\<rparr>]"
    by blast
  with run show ?thesis by blast
qed


subsection \<open>The applied set along sequences of calls\<close>

text \<open>First occurrences, prefixes and the removal of the newest elements of a list.\<close>

lemma set_firsts [simp]: "set (firsts xs) = set xs"
  by (induction xs) auto

lemma distinct_firsts [simp]: "distinct (firsts xs)"
  by (induction xs) auto

lemma firsts_distinct: "distinct xs \<Longrightarrow> firsts xs = xs"
  by (induction xs) (auto simp: filter_id_conv)

lemma firsts_filter: "firsts (filter Q xs) = filter Q (firsts xs)"
  by (induction xs) (auto intro!: filter_cong)

lemma firsts_append: "firsts (xs @ ys) = firsts xs @ filter (\<lambda>y. y \<notin> set xs) (firsts ys)"
proof (induction xs)
  case Nil
  then show ?case by simp
next
  case (Cons x xs)
  have "filter (\<lambda>y. y \<noteq> x) (filter (\<lambda>y. y \<notin> set xs) (firsts ys)) =
      filter (\<lambda>y. y \<notin> set (x # xs)) (firsts ys)"
    by (auto intro: filter_cong)
  with Cons show ?case by simp
qed

lemma prefix_firsts: "prefix xs ys \<Longrightarrow> prefix (firsts xs) (firsts ys)"
  by (auto simp: prefix_def firsts_append)

lemma prefix_firsts_extend:
  assumes R: "prefix R (firsts ids)" and C: "prefix C (filter (\<lambda>i. i \<notin> set R) ids)"
    and d: "distinct C"
  shows "prefix (R @ C) (firsts ids)"
proof -
  from R obtain rest where U: "firsts ids = R @ rest" by (auto simp: prefix_def)
  have "distinct (R @ rest)" using distinct_firsts [of ids] U by simp
  then have rest: "filter (\<lambda>i. i \<notin> set R) rest = rest" and R0: "filter (\<lambda>i. i \<notin> set R) R = []"
    by (auto simp: filter_id_conv filter_empty_conv)
  from prefix_firsts [OF C] d have "prefix C (firsts (filter (\<lambda>i. i \<notin> set R) ids))"
    by (simp add: firsts_distinct)
  then have "prefix C rest"
    by (simp add: firsts_filter U rest R0)
  then show ?thesis by (simp add: U)
qed

lemma prefix_firsts_take:
  "prefix R (firsts ids) \<Longrightarrow> \<exists>k. R = firsts (take k ids)"
proof (induction ids arbitrary: R rule: rev_induct)
  case Nil
  then show ?case by simp
next
  case (snoc x xs)
  show ?case
  proof (cases "prefix R (firsts xs)")
    case True
    from snoc.IH [OF True] obtain k where "R = firsts (take k xs)" by blast
    then have "R = firsts (take (min k (length xs)) (xs @ [x]))"
      by (cases "k \<le> length xs") (simp_all add: min_def)
    then show ?thesis by blast
  next
    case False
    with snoc.prems have "R = firsts (xs @ [x])"
      by (auto simp: firsts_append split: if_splits)
    then have "R = firsts (take (Suc (length xs)) (xs @ [x]))" by simp
    then show ?thesis by blast
  qed
qed

lemma filter_keep_front:
  "\<forall>x \<in> set a. f x \<notin> f ` set b \<Longrightarrow> filter (\<lambda>x. f x \<notin> f ` set b) (a @ b) = a"
  by (auto simp: filter_id_conv filter_empty_conv)

lemma filter_newest_removed:
  assumes "distinct (map f xs)"
  shows "filter (\<lambda>x. f x \<notin> set (take j (rev (map f xs)))) xs = take (length xs - j) xs"
proof -
  let ?m = "length xs - j"
  have tk: "set (take j (rev (map f xs))) = f ` set (drop ?m xs)"
    by (simp add: take_rev drop_map)
  from assms have "distinct (map f (take ?m xs) @ map f (drop ?m xs))"
    by (metis append_take_drop_id map_append)
  then have "\<forall>x \<in> set (take ?m xs). f x \<notin> f ` set (drop ?m xs)"
    by auto
  from filter_keep_front [OF this] show ?thesis
    by (simp only: tk append_take_drop_id)
qed


text \<open>
  \<open>Migrate\<close> appends the rows of the units it commits and nothing else; \<open>Rollback\<close>
  removes the rows of the units it undoes and nothing else; and the ids of the table stay
  pairwise distinct, since the insert refuses a second row of an id.
\<close>

lemma Migrate_rows:
  assumes "Migrate env ms db = (r, l, db')"
  shows "rows_of db' = rows_of db @ stamped env (tick db) (committed l) \<and>
         tick db' = tick db + length (committed l)"
proof (cases "AutoMigrate env db")
  case (Inl c)
  with assms show ?thesis by (auto simp: Migrate_def)
next
  case (Inr db1)
  note auto_ok = this
  note db1 = AutoMigrate_Inr [OF auto_ok]
  show ?thesis
  proof (cases "Find env db1")
    case (Inl c)
    with auto_ok assms db1 show ?thesis by (auto simp: Migrate_def)
  next
    case (Inr rows)
    with auto_ok assms
    have loop: "run_pending env (appliedMap rows) ms db1 = (r, l, db')"
      by (simp add: Migrate_def)
    from db1 have "migration_records db1 = Some (rows_of db)" by simp
    from run_pending_records [OF loop this] db1 show ?thesis
      by (simp add: rows_of_def)
  qed
qed

lemma Rollback_rows:
  assumes "Rollback env ms n db = (r, l, db')"
  shows "rows_of db' = filter (\<lambda>x. ID x \<notin> set (undone l)) (rows_of db) \<and> tick db' = tick db"
proof (cases "Find_recent env n db")
  case (Inl c)
  with assms show ?thesis by (auto simp: Rollback_def)
next
  case (Inr sel)
  with assms have loop: "run_rollbacks env (migrationsMap ms) sel db = (r, l, db')"
    by (simp add: Rollback_def)
  from Find_recent_Inr [OF Inr] have "migration_records db = Some (rows_of db)" by simp
  from run_rollbacks_records [OF loop this] show ?thesis
    by (simp add: rows_of_def)
qed

lemma run_pending_distinct:
  "run_pending env ap ms db = (r, l, db') \<Longrightarrow> migration_records db = Some rows \<Longrightarrow>
     distinct (map ID rows) \<Longrightarrow> distinct (map ID rows @ committed l)"
proof (induction ms arbitrary: db r l db' rows)
  case Nil
  then show ?case by simp
next
  case (Cons m ms)
  show ?case
  proof (cases "ap (mig_ID m)")
    case True
    with Cons.prems have "run_pending env ap ms db = (r, l, db')" by simp
    from Cons.IH [OF this Cons.prems(2,3)] show ?thesis .
  next
    case False
    show ?thesis
    proof (cases "migrate_tx env m db")
      case (Inl e)
      with False Cons.prems show ?thesis by auto
    next
      case (Inr d0)
      obtain r1 l1 d1 where rest: "run_pending env ap ms d0 = (r1, l1, d1)"
        by (cases "run_pending env ap ms d0") auto
      with False Inr Cons.prems
      have eq: "l = Running (mig_ID m) # Successful (mig_ID m) # l1"
        by auto
      from Inr Cons.prems(2)
      have d0: "migration_records d0 =
                  Some (rows @ [\<lparr>ID = mig_ID m, AppliedAt = clock env (tick db)\<rparr>])"
        and new: "mig_ID m \<notin> set (map ID rows)"
        by (auto simp: migrate_tx_Inr)
      from new Cons.prems(3)
      have "distinct (map ID (rows @ [\<lparr>ID = mig_ID m, AppliedAt = clock env (tick db)\<rparr>]))"
        by simp
      from Cons.IH [OF rest d0 this] eq show ?thesis by simp
    qed
  qed
qed

lemma Migrate_distinct:
  assumes "Migrate env ms db = (r, l, db')" and "distinct (recorded db)"
  shows "distinct (recorded db @ committed l)"
proof (cases "AutoMigrate env db")
  case (Inl c)
  with assms show ?thesis by (auto simp: Migrate_def)
next
  case (Inr db1)
  note auto_ok = this
  note db1 = AutoMigrate_Inr [OF auto_ok]
  show ?thesis
  proof (cases "Find env db1")
    case (Inl c)
    with auto_ok assms db1 show ?thesis by (auto simp: Migrate_def)
  next
    case (Inr rows)
    with auto_ok assms
    have loop: "run_pending env (appliedMap rows) ms db1 = (r, l, db')"
      by (simp add: Migrate_def)
    from db1 have "migration_records db1 = Some (rows_of db)" by simp
    from run_pending_distinct [OF loop this] assms(2) show ?thesis
      by (simp add: recorded_rows_of)
  qed
qed

lemma stamped_sorted:
  assumes "strict_mono (clock env)"
  shows "sorted_wrt (<) (map AppliedAt (stamped env k ids))"
proof -
  have zs: "map snd (zip ids [k ..< k + length ids]) = [k ..< k + length ids]"
    by (rule map_snd_zip) simp
  have "map AppliedAt (stamped env k ids) =
      map (clock env \<circ> snd) (zip ids [k ..< k + length ids])"
    by (simp add: stamped_def split_def o_def)
  also have "\<dots> = map (clock env) (map snd (zip ids [k ..< k + length ids]))"
    by (simp only: map_map)
  also have "\<dots> = map (clock env) [k ..< k + length ids]"
    by (simp only: zs)
  finally have "map AppliedAt (stamped env k ids) = map (clock env) [k ..< k + length ids]" .
  moreover have "sorted_wrt (<) (map (clock env) [k ..< k + length ids])"
    using assms by (simp add: sorted_wrt_map strict_mono_def sorted_wrt_iff_nth_less)
  ultimately show ?thesis by simp
qed

lemma Migrate_in_order:
  assumes mono: "strict_mono (clock env)" and inv: "in_order env ms db"
  shows "in_order env ms (snd (snd (Migrate env ms db)))"
proof -
  obtain r l db' where run: "Migrate env ms db = (r, l, db')"
    by (cases "Migrate env ms db") auto
  let ?C = "committed l"
  note rows = Migrate_rows [OF run]
  from inv have pre: "prefix (recorded db) (firsts (map mig_ID ms))"
    and srt: "sorted_wrt (<) (map AppliedAt (rows_of db))"
    and old: "\<forall>x \<in> set (rows_of db). AppliedAt x < clock env (tick db)"
    by (simp_all add: in_order_def list_all_iff)
  from pre have "distinct (recorded db)"
    by (auto simp: prefix_def dest: arg_cong [where f = distinct])
  from Migrate_distinct [OF run this] have dC: "distinct ?C" by simp
  from Migrate_log [OF run]
  have "prefix ?C (map mig_ID (filter (\<lambda>m. mig_ID m \<notin> set (recorded db)) ms))"
    by (blast intro: prefix_order.trans)
  then have "prefix ?C (filter (\<lambda>i. i \<notin> set (recorded db)) (map mig_ID ms))"
    by (simp add: filter_map o_def)
  from prefix_firsts_extend [OF pre this dC] rows
  have a: "prefix (recorded db') (firsts (map mig_ID ms))"
    by (simp add: recorded_rows_of)
  have new: "\<forall>y \<in> set (stamped env (tick db) ?C).
      clock env (tick db) \<le> AppliedAt y \<and> AppliedAt y < clock env (tick db + length ?C)"
  proof
    fix y assume "y \<in> set (stamped env (tick db) ?C)"
    from set_stamped_AppliedAt [OF this] obtain j where
      "tick db \<le> j" "j < tick db + length ?C" "AppliedAt y = clock env j"
      by blast
    with mono show "clock env (tick db) \<le> AppliedAt y \<and>
        AppliedAt y < clock env (tick db + length ?C)"
      by (simp add: strict_mono_less strict_mono_less_eq)
  qed
  from srt stamped_sorted [OF mono, of "tick db" ?C] old new rows
  have b: "sorted_wrt (<) (map AppliedAt (rows_of db'))"
    by (fastforce simp: sorted_wrt_append)
  from mono have "clock env (tick db) \<le> clock env (tick db + length ?C)"
    by (simp add: strict_mono_less_eq)
  with old new rows have c: "\<forall>x \<in> set (rows_of db'). AppliedAt x < clock env (tick db')"
    by auto
  from a b c run show ?thesis
    by (simp add: in_order_def list_all_iff)
qed


lemma Rollback_in_order:
  assumes inv: "in_order env ms db"
  shows "in_order env ms (snd (snd (Rollback env ms n db)))"
proof -
  obtain r l db' where run: "Rollback env ms n db = (r, l, db')"
    by (cases "Rollback env ms n db") auto
  let ?rows = "rows_of db"
  from inv have pre: "prefix (recorded db) (firsts (map mig_ID ms))"
    and srt: "sorted_wrt (<) (map AppliedAt ?rows)"
    and old: "\<forall>x \<in> set ?rows. AppliedAt x < clock env (tick db)"
    by (simp_all add: in_order_def list_all_iff)
  from pre have dist: "distinct (map ID ?rows)"
    by (auto simp: prefix_def recorded_rows_of dest: arg_cong [where f = distinct])
  from pre have "set (recorded db) \<subseteq> set (firsts (map mig_ID ms))"
    by (rule set_mono_prefix)
  then have known: "set (map ID ?rows) \<subseteq> set (map mig_ID ms)"
    by (simp add: recorded_rows_of)
  have "\<exists>m. rows_of db' = take m ?rows \<and> tick db' = tick db"
  proof (cases "Find_recent env n db")
    case (Inl c)
    with run have "rows_of db' = take (length ?rows) ?rows \<and> tick db' = tick db"
      by (auto simp: Rollback_def)
    then show ?thesis by blast
  next
    case (Inr sel)
    let ?mp = "migrationsMap ms"
    let ?k = "if n < 0 then length ?rows else nat n"
    from srt have "sorted (map AppliedAt ?rows)"
      by (rule strict_sorted_imp_sorted)
    then have "Order_applied_at_DESC ?rows = rev ?rows"
      by (simp add: Order_applied_at_DESC_def sort_key_id_if_sorted)
    with Find_recent_Inr [OF Inr] have sel: "sel = take ?k (rev ?rows)"
      by (simp add: Limit_def)
    then have ids_sel: "map ID sel = take ?k (rev (map ID ?rows))"
      by (simp add: take_map rev_map)
    from sel have "set sel \<subseteq> set ?rows"
      using set_take_subset [of ?k "rev ?rows"] by simp
    with known have "\<forall>x \<in> set sel. ?mp (ID x) \<noteq> None"
      by (auto simp: migrationsMap_None)
    then have all: "filter (\<lambda>x. ?mp (ID x) \<noteq> None) sel = sel"
      by (simp add: filter_id_conv)
    from Inr run have loop: "run_rollbacks env ?mp sel db = (r, l, db')"
      by (simp add: Rollback_def)
    from run_rollbacks_log [OF loop] all have "prefix (undone l) (map ID sel)"
      by (auto intro: prefix_order.trans)
    then have "undone l = take (length (undone l)) (map ID sel)"
      by (auto simp: prefix_def)
    with ids_sel have und: "undone l = take (min (length (undone l)) ?k) (rev (map ID ?rows))"
      by (simp add: take_take)
    from Rollback_rows [OF run]
    have "rows_of db' = filter (\<lambda>x. ID x \<notin> set (undone l)) ?rows" and t: "tick db' = tick db"
      by simp_all
    with und have "rows_of db' =
        filter (\<lambda>x. ID x \<notin> set (take (min (length (undone l)) ?k) (rev (map ID ?rows)))) ?rows"
      by simp
    with filter_newest_removed [OF dist]
    have "rows_of db' = take (length ?rows - min (length (undone l)) ?k) ?rows"
      by simp
    with t show ?thesis by blast
  qed
  then obtain m where rows': "rows_of db' = take m ?rows" and t: "tick db' = tick db"
    by blast
  from rows' have "prefix (recorded db') (recorded db)"
    by (simp add: recorded_rows_of take_map [symmetric] take_is_prefix)
  from this pre have a: "prefix (recorded db') (firsts (map mig_ID ms))"
    by (rule prefix_order.trans)
  from srt rows' have b: "sorted_wrt (<) (map AppliedAt (rows_of db'))"
    by (simp add: take_map [symmetric] sorted_wrt_take)
  from old rows' t have c: "\<forall>x \<in> set (rows_of db'). AppliedAt x < clock env (tick db')"
    by (auto dest: in_set_takeD)
  from a b c run show ?thesis
    by (simp add: in_order_def list_all_iff)
qed

lemma run_calls_in_order:
  assumes mono: "strict_mono (clock env)"
  shows "in_order env ms db \<Longrightarrow> in_order env ms (run_calls env ms calls db)"
proof (induction calls arbitrary: db)
  case Nil
  then show ?case by (simp add: run_calls_def)
next
  case (Cons c calls)
  from Cons.prems have "in_order env ms (exec env ms c db)"
    by (cases c) (simp_all add: Migrate_in_order [OF mono] Rollback_in_order)
  from Cons.IH [OF this] show ?case
    by (simp add: run_calls_def)
qed

lemma in_order_empty: "recorded db = [] \<Longrightarrow> in_order env ms db"
  by (simp add: in_order_def recorded_rows_of)

text \<open>
  C6. The applied set stays a prefix of the registration order. Start from a store with no
  recorded migration and run any sequence of \<open>Migrate()\<close> and \<open>Rollback(n)\<close> calls, of
  any \<open>n\<close>, whether they return \<open>nil\<close> or an error, against one registry and with a
  clock whose readings increase strictly. Then the set of recorded ids is the set of the
  ids of the first \<open>k\<close> units of the registry, for some \<open>k\<close>; and when the ids of the
  registry are pairwise distinct, the recorded ids in row order are exactly the ids of
  the first \<open>k\<close> units in registration order, so that no unit is recorded while a unit
  before it is not.
\<close>

theorem applied_set_prefix_closed:
  assumes "strict_mono (clock env)" and "recorded db0 = []"
  shows "(\<exists>k. set (recorded (run_calls env migrations calls db0)) =
               set (take k (map mig_ID migrations)))
         \<and> (distinct (map mig_ID migrations) \<longrightarrow>
              prefix (recorded (run_calls env migrations calls db0)) (map mig_ID migrations))"
proof -
  let ?db = "run_calls env migrations calls db0"
  from run_calls_in_order [OF assms(1) in_order_empty [OF assms(2)]]
  have pre: "prefix (recorded ?db) (firsts (map mig_ID migrations))"
    by (simp add: in_order_def)
  from prefix_firsts_take [OF pre] obtain k where
    "recorded ?db = firsts (take k (map mig_ID migrations))"
    by blast
  then have "set (recorded ?db) = set (take k (map mig_ID migrations))"
    by simp
  then have "\<exists>k. set (recorded ?db) = set (take k (map mig_ID migrations))"
    by blast
  moreover from pre have "distinct (map mig_ID migrations) \<longrightarrow>
      prefix (recorded ?db) (map mig_ID migrations)"
    by (auto simp: firsts_distinct)
  ultimately show ?thesis by blast
qed


theorem applied_set_prefix_closed_witness:
  "recorded (run_calls quiet broken_registry
      [CallMigrate, CallRollback 1, CallMigrate, CallRollback 0] fresh) =
     [''001_create_users_table'']
   \<and> prefix [''001_create_users_table''] (map mig_ID broken_registry)"
proof -
  have mono: "strict_mono (clock quiet)"
    by (simp add: quiet_def strict_mono_def)
  have empty: "recorded fresh = []"
    by (simp add: recorded_def fresh_def)
  have dist: "distinct (map mig_ID broken_registry)"
    by (simp add: eval_defs broken_defs)
  have run: "recorded (run_calls quiet broken_registry
      [CallMigrate, CallRollback 1, CallMigrate, CallRollback 0] fresh) =
     [''001_create_users_table'']"
    by (simp add: run_calls_def recorded_def eval_defs broken_defs)
  from applied_set_prefix_closed [OF mono empty, of broken_registry
      "[CallMigrate, CallRollback 1, CallMigrate, CallRollback 0]"] dist
  have "prefix (recorded (run_calls quiet broken_registry
      [CallMigrate, CallRollback 1, CallMigrate, CallRollback 0] fresh))
      (map mig_ID broken_registry)"
    by blast
  with run show ?thesis by simp
qed

end
